theory Spec2Isabelle
  imports Complex_Main
begin

section \<open>Data model of the chamber simulation\<close>

text \<open>
  The visitor type is the string \<^verbatim>\<open>'S'\<close>, \<^verbatim>\<open>'A'\<close> or \<^verbatim>\<open>'O'\<close> in the source;
  the three values are the constructors of a datatype here, named as the log messages
  name them.
\<close>

datatype vtype = Student | Admin | Online

text \<open>
  A Python \<^verbatim>\<open>str\<close> is the list of its Unicode code points; \<open>lit\<close> writes an
  ASCII literal as such a list.
\<close>

type_synonym str = "nat list"

definition lit :: "string \<Rightarrow> str" where
  "lit s = map of_char s"

text \<open>
  An entry of the arrival queue \<^verbatim>\<open>entry_order\<close>: \<^verbatim>\<open>(index, name, vtype)\<close>. The
  index is the one \<^verbatim>\<open>enumerate(seq, start=1)\<close> hands to the visitor thread; it is
  only ever compared for equality.
\<close>

type_synonym entry = "nat \<times> str \<times> vtype"

text \<open>The messages passed to \<^verbatim>\<open>chamber.log\<close>, by their payload.\<close>

datatype event =
    ARRIVED str vtype
  | ENTERED str vtype int
  | LEFT str vtype int
  | STARTED str
  | ENDED str
  | FINISHED

text \<open>
  The control point of one visitor thread inside \<^verbatim>\<open>visitor\<close>. A thread changes the
  shared state only between acquiring and releasing \<^verbatim>\<open>chamber.lock\<close>, so the points
  are the places where the lock is taken or given up.
\<close>

datatype pc =
    Start                   \<comment> \<open>before line 69\<close>
  | Registering             \<comment> \<open>lock taken at line 69, lines 70-72 not yet run\<close>
  | AtEntry                 \<comment> \<open>before \<^verbatim>\<open>with cond\<close> (line 77 / 117)\<close>
  | InLoop                  \<comment> \<open>lock held, at the top of \<^verbatim>\<open>while True\<close>\<close>
  | Waiting                 \<comment> \<open>blocked in \<^verbatim>\<open>cond.wait()\<close>, lock released\<close>
  | Notified                \<comment> \<open>woken inside \<^verbatim>\<open>cond.wait()\<close>, lock not yet re-acquired\<close>
  | Inside                  \<comment> \<open>admitted, in \<^verbatim>\<open>time.sleep\<close>\<close>
  | Leaving                 \<comment> \<open>lock taken at line 104 / 137, body not yet run\<close>
  | Notifying "vtype list"  \<comment> \<open>in \<^verbatim>\<open>for t in ('O','S','A')\<close>, the kinds still to visit\<close>
  | InNotify vtype "vtype list" \<comment> \<open>inside \<^verbatim>\<open>with chamber.cond[t]\<close>\<close>
  | Done                    \<comment> \<open>\<^verbatim>\<open>visitor\<close> has returned\<close>
  | Crashed                 \<comment> \<open>the thread died of an exception\<close>

text \<open>
  \<^verbatim>\<open>ChamberState\<close> together with the threads that share it. \<^verbatim>\<open>lock\<close> is the one
  \<^verbatim>\<open>threading.Lock\<close> (not re-entrant: it is just taken or free); \<^verbatim>\<open>cond t\<close> holds
  the threads blocked on \<^verbatim>\<open>chamber.cond[t]\<close>, in the order they started to wait.
  \<^verbatim>\<open>pcs\<close> holds the control point of thread \<open>index\<close> at position \<open>index - 1\<close>;
  \<^verbatim>\<open>log\<close> is the content of the log file.
\<close>

record state =
  K :: int
  current_type :: "vtype option"
  count :: int
  waiting :: "vtype \<Rightarrow> int"
  lock :: bool
  cond :: "vtype \<Rightarrow> nat list"
  entry_order :: "entry list"
  log :: "event list"
  pcs :: "pc list"
  finished :: bool

text \<open>\<^verbatim>\<open>ChamberState.__init__\<close> for a run with \<open>n\<close> visitor threads, none started.\<close>

definition init_state :: "int \<Rightarrow> nat \<Rightarrow> state" where
  "init_state k n =
     \<lparr>K = k, current_type = None, count = 0, waiting = (\<lambda>_. 0), lock = False,
      cond = (\<lambda>_. []), entry_order = [], log = [], pcs = replicate n Start,
      finished = False\<rparr>"

subsection \<open>The arrival queue\<close>

text \<open>
  The loop of \<^verbatim>\<open>remove_from_queue_by_index\<close> over the deque: the first entry whose
  index matches is deleted and the result is \<^verbatim>\<open>True\<close>; with no match the deque is
  left as it is and the result is \<^verbatim>\<open>False\<close>.
\<close>

fun del_by_index :: "nat \<Rightarrow> entry list \<Rightarrow> bool \<times> entry list" where
  "del_by_index index [] = (False, [])"
| "del_by_index index ((idx, name, vtype) # rest) =
     (if idx = index then (True, rest)
      else (case del_by_index index rest of (b, r) \<Rightarrow> (b, (idx, name, vtype) # r)))"

definition remove_from_queue_by_index :: "nat \<Rightarrow> state \<Rightarrow> bool \<times> state" where
  "remove_from_queue_by_index index s =
     (case del_by_index index (entry_order s) of
        (b, q) \<Rightarrow> (b, s\<lparr>entry_order := q\<rparr>))"

subsection \<open>Reading the meeting file\<close>

text \<open>
  The reader calls three built-ins of Python on \<^verbatim>\<open>str\<close>: \<^verbatim>\<open>strip()\<close> and
  \<^verbatim>\<open>split()\<close>, which share the white space of \<^verbatim>\<open>str.isspace\<close>, and
  \<^verbatim>\<open>upper()\<close>. Their Unicode tables are not part of the repository, so they are
  parameters of the model: \<open>isspace\<close> says which code points are white space, and
  \<open>upper\<close> is \<^verbatim>\<open>str.upper\<close> on a whole string (its result can be longer than its
  argument, as for the sharp s, whose upper case is \<^verbatim>\<open>SS\<close>). What is proved about
  the reader holds for every choice of the two, and so for Python's.
\<close>

definition strip :: "(nat \<Rightarrow> bool) \<Rightarrow> str \<Rightarrow> str" where
  "strip isspace s = rev (dropWhile isspace (rev (dropWhile isspace s)))"

text \<open>
  \<^verbatim>\<open>str.split()\<close> with no argument: the maximal runs of characters that are not
  white space. \<open>cur\<close> is the run being read.
\<close>

fun split_from :: "(nat \<Rightarrow> bool) \<Rightarrow> str \<Rightarrow> str \<Rightarrow> str list" where
  "split_from isspace cur [] = (if cur = [] then [] else [cur])"
| "split_from isspace cur (c # cs) =
     (if isspace c
      then (if cur = [] then split_from isspace [] cs else cur # split_from isspace [] cs)
      else split_from isspace (cur @ [c]) cs)"

definition split :: "(nat \<Rightarrow> bool) \<Rightarrow> str \<Rightarrow> str list" where
  "split isspace s = split_from isspace [] s"

definition startswith :: "str \<Rightarrow> str \<Rightarrow> bool" where
  "startswith s p = (take (length p) s = p)"

datatype error = ValueError str | IndexError | OSError

text \<open>Membership in \<^verbatim>\<open>('S','A','O')\<close>, with the visitor type the string stands for.\<close>

definition vtype_of :: "str \<Rightarrow> vtype option" where
  "vtype_of v =
     (if v = lit ''S'' then Some Student
      else if v = lit ''A'' then Some Admin
      else if v = lit ''O'' then Some Online
      else None)"

text \<open>\<^verbatim>\<open>vtype[-1]\<close>: the last character as a string; an empty string has none.\<close>

definition last_char :: "str \<Rightarrow> error + str" where
  "last_char v = (if v = [] then Inl IndexError else Inr [last v])"

text \<open>The default inter-arrival delay \<^verbatim>\<open>0.05\<close>, in seconds.\<close>

definition default_delay :: rat where
  "default_delay = 5 / 100"

type_synonym item = "str \<times> vtype \<times> rat"

text \<open>
  The body of the loop over the lines of the file (lines 155-172): an error, or the item
  the line adds to \<^verbatim>\<open>items\<close>, or nothing when the line is passed over.
\<close>

definition parse_line :: "(nat \<Rightarrow> bool) \<Rightarrow> (str \<Rightarrow> str) \<Rightarrow> str \<Rightarrow> error + item option" where
  "parse_line isspace upper line =
     (let s = strip isspace line in
      if s = [] then Inr None
      else if startswith s (lit ''#'') then Inr None
      else
        (let parts = split isspace s in
         if length parts \<ge> 2 then
           (let name = parts ! 0;
                vtype = upper (parts ! 1)
            in case (if vtype_of vtype = None then last_char vtype else Inr vtype) of
                 Inl e \<Rightarrow> Inl e
               | Inr vtype' \<Rightarrow>
                   (case vtype_of vtype' of
                      None \<Rightarrow> Inl (ValueError (strip isspace line))
                    | Some v \<Rightarrow> Inr (Some (name, v, default_delay))))
         else Inr None))"

fun read_lines ::
  "(nat \<Rightarrow> bool) \<Rightarrow> (str \<Rightarrow> str) \<Rightarrow> str list \<Rightarrow> item list \<Rightarrow> error + item list" where
  "read_lines isspace upper [] items = Inr items"
| "read_lines isspace upper (line # rest) items =
     (case parse_line isspace upper line of
        Inl e \<Rightarrow> Inl e
      | Inr None \<Rightarrow> read_lines isspace upper rest items
      | Inr (Some it) \<Rightarrow> read_lines isspace upper rest (items @ [it]))"

text \<open>
  \<^verbatim>\<open>read_meeting_info\<close>: the file is its list of lines, or \<open>None\<close> when it cannot
  be opened.
\<close>

definition read_meeting_info ::
  "(nat \<Rightarrow> bool) \<Rightarrow> (str \<Rightarrow> str) \<Rightarrow> str list option \<Rightarrow> error + item list" where
  "read_meeting_info isspace upper file =
     (case file of None \<Rightarrow> Inl OSError | Some lns \<Rightarrow> read_lines isspace upper lns [])"

text \<open>
  For the concrete files below, which are ASCII: \<^verbatim>\<open>str.isspace\<close> and
  \<^verbatim>\<open>str.upper\<close> as they are on code points below 128 (white space is 9 to 13 and
  28 to 32, and \<^verbatim>\<open>a\<close> to \<^verbatim>\<open>z\<close> become \<^verbatim>\<open>A\<close> to \<^verbatim>\<open>Z\<close>), and a
  readable file given by its lines. Above 127 the two are not Python's tables; they are
  applied to ASCII input only, in the concrete runs.
\<close>

definition ascii_isspace :: "nat \<Rightarrow> bool" where
  "ascii_isspace n = ((9 \<le> n \<and> n \<le> 13) \<or> (28 \<le> n \<and> n \<le> 32))"

definition ascii_upper :: "str \<Rightarrow> str" where
  "ascii_upper s = map (\<lambda>n. if 97 \<le> n \<and> n \<le> 122 then n - 32 else n) s"

definition ascii_file :: "string list \<Rightarrow> str list option" where
  "ascii_file lns = Some (map lit lns)"

subsection \<open>The visitor thread\<close>

definition set_pc :: "nat \<Rightarrow> pc \<Rightarrow> state \<Rightarrow> state" where
  "set_pc index p s = s\<lparr>pcs := (pcs s)[index - 1 := p]\<rparr>"

text \<open>Lines 70-72, run with the lock held.\<close>

definition register :: "str \<Rightarrow> vtype \<Rightarrow> nat \<Rightarrow> state \<Rightarrow> state" where
  "register name vtype index s =
     s\<lparr>waiting := (waiting s)(vtype := waiting s vtype + 1),
       entry_order := entry_order s @ [(index, name, vtype)],
       log := log s @ [ARRIVED name vtype]\<rparr>"

text \<open>Lines 79-89: the value of \<^verbatim>\<open>can_enter\<close> for a Student or an Admin.\<close>

definition can_enter_batch :: "vtype \<Rightarrow> state \<Rightarrow> bool" where
  "can_enter_batch vtype s =
     (case current_type s of
        None \<Rightarrow>
          (case entry_order s of
             [] \<Rightarrow> False
           | (_, _, front_type) # _ \<Rightarrow> front_type = vtype)
      | Some t \<Rightarrow> t = vtype \<and> count s < K s)"

text \<open>Lines 119-124: the value of \<^verbatim>\<open>can_enter\<close> for an online meeting.\<close>

definition can_enter_online :: "state \<Rightarrow> bool" where
  "can_enter_online s =
     (case current_type s of
        None \<Rightarrow>
          (case entry_order s of
             [] \<Rightarrow> False
           | (_, _, front_type) # _ \<Rightarrow> front_type = Online)
      | Some t \<Rightarrow> False)"

text \<open>Lines 92-96.\<close>

definition admit_batch :: "str \<Rightarrow> vtype \<Rightarrow> nat \<Rightarrow> state \<Rightarrow> state" where
  "admit_batch name vtype index s =
     (let s1 = s\<lparr>count := count s + 1\<rparr>;
          s2 = s1\<lparr>current_type := Some vtype\<rparr>;
          s3 = snd (remove_from_queue_by_index index s2);
          s4 = s3\<lparr>waiting := (waiting s3)(vtype := waiting s3 vtype - 1)\<rparr>
      in s4\<lparr>log := log s4 @ [ENTERED name vtype (count s4)]\<rparr>)"

text \<open>Lines 126-130.\<close>

definition admit_online :: "str \<Rightarrow> nat \<Rightarrow> state \<Rightarrow> state" where
  "admit_online name index s =
     (let s1 = s\<lparr>count := 1\<rparr>;
          s2 = s1\<lparr>current_type := Some Online\<rparr>;
          s3 = snd (remove_from_queue_by_index index s2);
          s4 = s3\<lparr>waiting := (waiting s3)(Online := waiting s3 Online - 1)\<rparr>
      in s4\<lparr>log := log s4 @ [STARTED name]\<rparr>)"

text \<open>
  \<^verbatim>\<open>cond.wait()\<close>: the thread joins the waiters of its condition, gives the lock up
  and blocks until a \<^verbatim>\<open>notify_all\<close> on that condition wakes it.
\<close>

definition cond_wait :: "vtype \<Rightarrow> nat \<Rightarrow> state \<Rightarrow> state" where
  "cond_wait vtype index s =
     set_pc index Waiting (s\<lparr>cond := (cond s)(vtype := cond s vtype @ [index]), lock := False\<rparr>)"

text \<open>\<^verbatim>\<open>chamber.cond[t].notify_all()\<close>: every waiter of the condition is woken.\<close>

definition notify_all :: "vtype \<Rightarrow> state \<Rightarrow> state" where
  "notify_all t s =
     s\<lparr>pcs := fold (\<lambda>i ps. ps[i - 1 := Notified]) (cond s t) (pcs s),
       cond := (cond s)(t := [])\<rparr>"

text \<open>Lines 105-108.\<close>

definition depart_batch :: "str \<Rightarrow> vtype \<Rightarrow> state \<Rightarrow> state" where
  "depart_batch name vtype s =
     (let s1 = s\<lparr>count := count s - 1\<rparr>;
          s2 = s1\<lparr>log := log s1 @ [LEFT name vtype (count s1)]\<rparr>
      in if count s2 = 0 then s2\<lparr>current_type := None\<rparr> else s2)"

text \<open>Lines 138-140.\<close>

definition depart_online :: "str \<Rightarrow> state \<Rightarrow> state" where
  "depart_online name s =
     (let s1 = s\<lparr>count := 0\<rparr>;
          s2 = s1\<lparr>current_type := None\<rparr>
      in s2\<lparr>log := log s2 @ [ENDED name]\<rparr>)"

text \<open>
  The end of the outer \<^verbatim>\<open>with chamber.lock\<close> and of \<^verbatim>\<open>visitor\<close>: the lock is
  released; releasing a lock that is not taken raises \<^verbatim>\<open>RuntimeError\<close>.
\<close>

definition exit_with :: "nat \<Rightarrow> state \<Rightarrow> state" where
  "exit_with index s =
     (if lock s then set_pc index Done (s\<lparr>lock := False\<rparr>) else set_pc index Crashed s)"

text \<open>
  One step of the thread running \<^verbatim>\<open>visitor(name, vtype, chamber, index)\<close>, from its
  control point to the next; \<open>None\<close> when the thread cannot move: it waits for the lock
  (\<^verbatim>\<open>with chamber.lock\<close>, \<^verbatim>\<open>with cond\<close> and \<^verbatim>\<open>with chamber.cond[t]\<close> all take
  the same lock), it is blocked in \<^verbatim>\<open>cond.wait()\<close>, or it has ended.
\<close>

definition visitor_step :: "str \<Rightarrow> vtype \<Rightarrow> nat \<Rightarrow> state \<Rightarrow> state option" where
  "visitor_step name vtype index s =
     (case pcs s ! (index - 1) of
        Start \<Rightarrow>
          (if lock s then None else Some (set_pc index Registering (s\<lparr>lock := True\<rparr>)))
      | Registering \<Rightarrow>
          Some (set_pc index AtEntry ((register name vtype index s)\<lparr>lock := False\<rparr>))
      | AtEntry \<Rightarrow>
          (if lock s then None else Some (set_pc index InLoop (s\<lparr>lock := True\<rparr>)))
      | InLoop \<Rightarrow>
          (if vtype = Student \<or> vtype = Admin then
             (if can_enter_batch vtype s
              then Some (set_pc index Inside ((admit_batch name vtype index s)\<lparr>lock := False\<rparr>))
              else Some (cond_wait vtype index s))
           else
             (if can_enter_online s
              then Some (set_pc index Inside ((admit_online name index s)\<lparr>lock := False\<rparr>))
              else Some (cond_wait Online index s)))
      | Waiting \<Rightarrow> None
      | Notified \<Rightarrow>
          (if lock s then None else Some (set_pc index InLoop (s\<lparr>lock := True\<rparr>)))
      | Inside \<Rightarrow>
          (if lock s then None else Some (set_pc index Leaving (s\<lparr>lock := True\<rparr>)))
      | Leaving \<Rightarrow>
          (if vtype = Student \<or> vtype = Admin then
             (let s1 = depart_batch name vtype s
              in if count s1 = 0
                 then Some (set_pc index (Notifying [Online, Student, Admin]) s1)
                 else Some (exit_with index s1))
           else Some (set_pc index (Notifying [Online, Student, Admin]) (depart_online name s)))
      | Notifying ts \<Rightarrow>
          (case ts of
             [] \<Rightarrow> Some (exit_with index s)
           | t # ts' \<Rightarrow>
               (if waiting s t > 0
                then (if lock s then None
                      else Some (set_pc index (InNotify t ts') (s\<lparr>lock := True\<rparr>)))
                else Some (set_pc index (Notifying ts') s)))
      | InNotify t ts \<Rightarrow>
          Some (set_pc index (Notifying ts) ((notify_all t s)\<lparr>lock := False\<rparr>))
      | Done \<Rightarrow> None
      | Crashed \<Rightarrow> None)"

subsection \<open>The runner\<close>

text \<open>
  \<^verbatim>\<open>run_from_file\<close> builds the chamber, reads the file and starts one thread per
  item, with indices from 1; an error of \<^verbatim>\<open>read_meeting_info\<close> ends the run before
  any thread exists.
\<close>

definition run_from_file ::
  "(nat \<Rightarrow> bool) \<Rightarrow> (str \<Rightarrow> str) \<Rightarrow> int \<Rightarrow> str list option
     \<Rightarrow> error + item list \<times> state" where
  "run_from_file isspace upper k file =
     (case read_meeting_info isspace upper file of
        Inl e \<Rightarrow> Inl e
      | Inr seq \<Rightarrow> Inr (seq, init_state k (length seq)))"

text \<open>
  The main thread after the joins: once every visitor thread has ended it logs
  \<^verbatim>\<open>Simulation finished.\<close>
\<close>

definition main_join :: "state \<Rightarrow> state option" where
  "main_join s =
     (if list_all (\<lambda>p. p = Done \<or> p = Crashed) (pcs s) \<and> \<not> finished s
      then Some (s\<lparr>log := log s @ [FINISHED], finished := True\<rparr>)
      else None)"

text \<open>
  One step of the whole program: thread \<open>i\<close> moves, where \<open>0\<close> is the main thread
  and \<open>i \<ge> 1\<close> is the visitor thread started for the \<open>i\<close>-th item. The lengths of
  \<^verbatim>\<open>time.sleep\<close> are not part of the model: a thread that can move may do so at any
  moment, so a thread that has been started and has not yet asked for the lock is the
  same as one not yet started, and every thread stands at \<open>Start\<close> in the first state.
  The run the sleeps of the source produce (0.05 s between two starts, 0.5 s and 0.8 s
  inside the chamber) is one of the schedules.
\<close>

definition sched_step :: "item list \<Rightarrow> nat \<Rightarrow> state \<Rightarrow> state option" where
  "sched_step seq i s =
     (if i = 0 then main_join s
      else if i \<le> length seq then
        (case seq ! (i - 1) of (name, vtype, delay) \<Rightarrow> visitor_step name vtype i s)
      else None)"

text \<open>A schedule is the list of the threads that move, in order.\<close>

fun run_sched :: "item list \<Rightarrow> nat list \<Rightarrow> state \<Rightarrow> state option" where
  "run_sched seq [] s = Some s"
| "run_sched seq (i # sched) s =
     (case sched_step seq i s of None \<Rightarrow> None | Some s' \<Rightarrow> run_sched seq sched s')"

text \<open>The states a run with capacity \<open>k\<close> over the items \<open>seq\<close> can be in.\<close>

inductive reachable :: "int \<Rightarrow> item list \<Rightarrow> state \<Rightarrow> bool" for k :: int and seq :: "item list" where
  reachable_init: "reachable k seq (init_state k (length seq))"
| reachable_step: "reachable k seq s \<Longrightarrow> sched_step seq i s = Some s' \<Longrightarrow> reachable k seq s'"

subsection \<open>Concrete inputs\<close>

text \<open>A queue of three waiting visitors.\<close>

definition queue_demo :: state where
  "queue_demo =
     (init_state 2 3)\<lparr>entry_order := [(1, lit ''a'', Student), (2, lit ''b'', Admin), (3, lit ''c'', Student)]\<rparr>"

text \<open>Two students, in the order of their arrival.\<close>

definition two_students :: "item list" where
  "two_students = [(lit ''a'', Student, default_delay), (lit ''b'', Student, default_delay)]"

text \<open>
  Both students have registered and the chamber is empty; the second one holds the lock
  at the top of its entry loop.
\<close>

definition front_demo :: state where
  "front_demo =
     (init_state 1 2)\<lparr>waiting := (\<lambda>_. 0)(Student := 2),
       entry_order := [(1, lit ''a'', Student), (2, lit ''b'', Student)],
       log := [ARRIVED (lit ''a'') Student, ARRIVED (lit ''b'') Student],
       lock := True, pcs := [AtEntry, InLoop]\<rparr>"

subsection \<open>Invariants of a run\<close>

text \<open>The control points at which a thread holds the lock.\<close>

fun holds_lock :: "pc \<Rightarrow> bool" where
  "holds_lock Registering = True"
| "holds_lock InLoop = True"
| "holds_lock Leaving = True"
| "holds_lock (Notifying ts) = True"
| "holds_lock _ = False"

text \<open>The control points no run reaches.\<close>

fun unreached :: "pc \<Rightarrow> bool" where
  "unreached (InNotify t ts) = True"
| "unreached Crashed = True"
| "unreached _ = False"

text \<open>The control points of a visitor that holds the chamber: admitted, not yet departed.\<close>

fun occupying :: "pc \<Rightarrow> bool" where
  "occupying Inside = True"
| "occupying Leaving = True"
| "occupying _ = False"

text \<open>The control points of a visitor that has registered and is not yet admitted.\<close>

fun queued :: "pc \<Rightarrow> bool" where
  "queued AtEntry = True"
| "queued InLoop = True"
| "queued Waiting = True"
| "queued Notified = True"
| "queued _ = False"

definition num :: "('a \<Rightarrow> bool) \<Rightarrow> 'a list \<Rightarrow> int" where
  "num P xs = int (length (filter P xs))"

text \<open>The lock is taken exactly when one thread is inside a critical section.\<close>

definition lock_inv :: "nat \<Rightarrow> state \<Rightarrow> bool" where
  "lock_inv n s \<longleftrightarrow>
     length (pcs s) = n \<and> num holds_lock (pcs s) = (if lock s then 1 else 0)
     \<and> num unreached (pcs s) = 0"

text \<open>An online meeting, then a student: the file \<^verbatim>\<open>o1 O\<close>, \<^verbatim>\<open>s1 S\<close>.\<close>

definition online_then_student :: "item list" where
  "online_then_student = [(lit ''o1'', Online, default_delay), (lit ''s1'', Student, default_delay)]"

text \<open>
  The occupancy invariant: \<^verbatim>\<open>count\<close> is the number of visitors that hold the chamber,
  all of them are of the kind \<^verbatim>\<open>current_type\<close>, and the count is within its bounds.
\<close>

definition occ_inv :: "int \<Rightarrow> item list \<Rightarrow> state \<Rightarrow> bool" where
  "occ_inv k seq s \<longleftrightarrow>
     K s = k \<and> count s = num occupying (pcs s)
     \<and> (\<forall>j < length (pcs s). occupying (pcs s ! j) \<longrightarrow>
          current_type s = Some (fst (snd (seq ! j))))
     \<and> (current_type s = None \<longrightarrow> count s = 0)
     \<and> (current_type s = Some Online \<longrightarrow> count s = 1)
     \<and> (current_type s \<noteq> None \<longrightarrow> 1 \<le> count s \<and> count s \<le> max 1 k)"

text \<open>Two students and capacity 2.\<close>

definition both_inside :: "nat list" where
  "both_inside = [1, 1, 1, 1, 2, 2, 2, 2]"

text \<open>
  The ledger invariant: the queue holds each registered, not yet admitted visitor once,
  under its own index, name and kind, and nothing else; \<^verbatim>\<open>waiting\<close> counts its
  entries by kind.
\<close>

definition ledger_inv :: "item list \<Rightarrow> state \<Rightarrow> bool" where
  "ledger_inv seq s \<longleftrightarrow>
     distinct (map fst (entry_order s))
     \<and> (\<forall>e \<in> set (entry_order s).
          1 \<le> fst e \<and> fst e \<le> length (pcs s) \<and> queued (pcs s ! (fst e - 1))
          \<and> snd e = (fst (seq ! (fst e - 1)), fst (snd (seq ! (fst e - 1)))))
     \<and> (\<forall>j < length (pcs s). queued (pcs s ! j) \<longrightarrow> Suc j \<in> fst ` set (entry_order s))
     \<and> (\<forall>v. waiting s v = num (\<lambda>e. snd (snd e) = v) (entry_order s))"

text \<open>Two students and capacity 1: the first is inside, the second waits.\<close>

definition one_inside_one_waiting :: "nat list" where
  "one_inside_one_waiting = [1, 1, 1, 1, 2, 2, 2, 2]"

section \<open>Properties of the arrival queue\<close>

lemma del_by_index_absent:
  "\<forall>e \<in> set q. fst e \<noteq> index \<Longrightarrow> del_by_index index q = (False, q)"
  by (induction q) auto

lemma del_by_index_present:
  "\<exists>e \<in> set q. fst e = index \<Longrightarrow>
   \<exists>pre e post. q = pre @ e # post \<and> fst e = index \<and> (\<forall>x \<in> set pre. fst x \<noteq> index)
     \<and> del_by_index index q = (True, pre @ post)"
proof (induction q)
  case Nil
  then show ?case by simp
next
  case (Cons a q)
  show ?case
  proof (cases "fst a = index")
    case True
    then have "a # q = [] @ a # q \<and> fst a = index \<and> (\<forall>x \<in> set []. fst x \<noteq> index)
        \<and> del_by_index index (a # q) = (True, [] @ q)"
      by (cases a) auto
    then show ?thesis by blast
  next
    case False
    with Cons.prems have "\<exists>e \<in> set q. fst e = index" by auto
    from Cons.IH [OF this] obtain pre e post where
      h: "q = pre @ e # post" "fst e = index" "\<forall>x \<in> set pre. fst x \<noteq> index"
         "del_by_index index q = (True, pre @ post)"
      by blast
    from False h have "a # q = (a # pre) @ e # post \<and> fst e = index
        \<and> (\<forall>x \<in> set (a # pre). fst x \<noteq> index)
        \<and> del_by_index index (a # q) = (True, (a # pre) @ post)"
      by (cases a) auto
    then show ?thesis by blast
  qed
qed

text \<open>
  C9. If some entry of \<^verbatim>\<open>entry_order\<close> has sequence index \<open>index\<close>,
  \<^verbatim>\<open>remove_from_queue_by_index\<close> removes the first such entry, keeps every other
  entry in its place relative to the others, and returns \<^verbatim>\<open>True\<close>; if no entry has
  that index, the queue is unchanged and the result is \<^verbatim>\<open>False\<close>.
\<close>

theorem remove_from_queue_by_index_first_match:
  "((\<exists>e \<in> set (entry_order s). fst e = index) \<longrightarrow>
      (\<exists>pre e post. entry_order s = pre @ e # post \<and> fst e = index
         \<and> (\<forall>x \<in> set pre. fst x \<noteq> index)
         \<and> remove_from_queue_by_index index s = (True, s\<lparr>entry_order := pre @ post\<rparr>)))
   \<and> ((\<forall>e \<in> set (entry_order s). fst e \<noteq> index) \<longrightarrow>
      remove_from_queue_by_index index s = (False, s))"
proof (intro conjI impI)
  assume "\<exists>e \<in> set (entry_order s). fst e = index"
  from del_by_index_present [OF this] obtain pre e post where
    h: "entry_order s = pre @ e # post" "fst e = index" "\<forall>x \<in> set pre. fst x \<noteq> index"
       "del_by_index index (entry_order s) = (True, pre @ post)"
    by blast
  from h(4) have "remove_from_queue_by_index index s = (True, s\<lparr>entry_order := pre @ post\<rparr>)"
    by (simp add: remove_from_queue_by_index_def)
  with h(1-3)
  show "\<exists>pre e post. entry_order s = pre @ e # post \<and> fst e = index
         \<and> (\<forall>x \<in> set pre. fst x \<noteq> index)
         \<and> remove_from_queue_by_index index s = (True, s\<lparr>entry_order := pre @ post\<rparr>)"
    by blast
next
  assume "\<forall>e \<in> set (entry_order s). fst e \<noteq> index"
  from del_by_index_absent [OF this]
  show "remove_from_queue_by_index index s = (False, s)"
    by (simp add: remove_from_queue_by_index_def)
qed

theorem remove_from_queue_by_index_first_match_witness:
  "(\<exists>e \<in> set (entry_order queue_demo). fst e = 2)
   \<and> (\<exists>pre e post. entry_order queue_demo = pre @ e # post \<and> fst e = 2
         \<and> (\<forall>x \<in> set pre. fst x \<noteq> 2)
         \<and> remove_from_queue_by_index 2 queue_demo
             = (True, queue_demo\<lparr>entry_order := pre @ post\<rparr>))
   \<and> remove_from_queue_by_index 2 queue_demo
       = (True, queue_demo\<lparr>entry_order := [(1, lit ''a'', Student), (3, lit ''c'', Student)]\<rparr>)
   \<and> 7 \<notin> fst ` set (entry_order queue_demo)
   \<and> remove_from_queue_by_index 7 queue_demo = (False, queue_demo)"
proof -
  have h1: "\<exists>e \<in> set (entry_order queue_demo). fst e = 2"
    by (simp add: queue_demo_def)
  have h2: "\<forall>e \<in> set (entry_order queue_demo). fst e \<noteq> 7"
    by (simp add: queue_demo_def)
  from remove_from_queue_by_index_first_match [of queue_demo 2] h1
  have a: "\<exists>pre e post. entry_order queue_demo = pre @ e # post \<and> fst e = 2
         \<and> (\<forall>x \<in> set pre. fst x \<noteq> 2)
         \<and> remove_from_queue_by_index 2 queue_demo
             = (True, queue_demo\<lparr>entry_order := pre @ post\<rparr>)"
    by blast
  from remove_from_queue_by_index_first_match [of queue_demo 7] h2
  have b: "remove_from_queue_by_index 7 queue_demo = (False, queue_demo)"
    by blast
  have c: "remove_from_queue_by_index 2 queue_demo
       = (True, queue_demo\<lparr>entry_order := [(1, lit ''a'', Student), (3, lit ''c'', Student)]\<rparr>)"
    by (simp add: queue_demo_def remove_from_queue_by_index_def)
  have d: "7 \<notin> fst ` set (entry_order queue_demo)"
    by (simp add: queue_demo_def)
  from h1 a b c d show ?thesis by blast
qed

section \<open>Properties of the reader\<close>

lemma split_from_nonempty: "[] \<notin> set (split_from isspace cur s)"
  by (induction s arbitrary: cur) auto

lemma split_nonempty: "tok \<in> set (split isspace s) \<Longrightarrow> tok \<noteq> []"
  using split_from_nonempty [of isspace "[]" s] by (auto simp: split_def)

lemma vtype_of_last:
  "vtype_of u = Some v \<Longrightarrow> u \<noteq> [] \<and> vtype_of [last u] = Some v"
proof -
  assume h: "vtype_of u = Some v"
  then have "u \<noteq> [] \<and> u = [last u]"
    by (auto simp: vtype_of_def lit_def split: if_splits)
  with h show ?thesis by simp
qed

lemma parse_line_fields:
  assumes "strip isspace line \<noteq> []" "\<not> startswith (strip isspace line) (lit ''#'')"
    "split isspace (strip isspace line) = name # tok # rest"
  shows "parse_line isspace upper line =
     (if upper tok = [] then Inl IndexError
      else case vtype_of [last (upper tok)] of
             None \<Rightarrow> Inl (ValueError (strip isspace line))
           | Some v \<Rightarrow> Inr (Some (name, v, default_delay)))"
proof (cases "vtype_of (upper tok)")
  case None
  with assms show ?thesis
    by (simp add: parse_line_def last_char_def)
next
  case (Some v)
  from vtype_of_last [OF Some] Some assms show ?thesis
    by (simp add: parse_line_def)
qed

lemma parse_line_ignored:
  "strip isspace line = [] \<or> startswith (strip isspace line) (lit ''#'') \<Longrightarrow>
   parse_line isspace upper line = Inr None"
  by (auto simp: parse_line_def Let_def)

lemma parse_line_short:
  "length (split isspace (strip isspace line)) < 2 \<Longrightarrow> parse_line isspace upper line = Inr None"
  by (simp add: parse_line_def Let_def)

lemma parse_line_delay:
  "parse_line isspace upper line = Inr (Some it) \<Longrightarrow> snd (snd it) = default_delay"
  by (auto simp: parse_line_def Let_def split: if_splits sum.splits option.splits)

lemma read_lines_error:
  "line \<in> set lns \<Longrightarrow> parse_line isspace upper line = Inl e \<Longrightarrow>
   \<exists>e'. read_lines isspace upper lns acc = Inl e'"
  by (induction lns arbitrary: acc) (auto split: sum.splits option.splits)

lemma read_lines_skip:
  "parse_line isspace upper line = Inr None \<Longrightarrow>
   read_lines isspace upper (pre @ line # post) acc = read_lines isspace upper (pre @ post) acc"
  by (induction pre arbitrary: acc) (auto split: sum.splits option.splits)

lemma read_lines_delay:
  "read_lines isspace upper lns acc = Inr items \<Longrightarrow>
   \<forall>it \<in> set acc. snd (snd it) = default_delay \<Longrightarrow>
   \<forall>it \<in> set items. snd (snd it) = default_delay"
proof (induction lns arbitrary: acc)
  case Nil
  then show ?case by simp
next
  case (Cons line lns)
  show ?case
  proof (cases "parse_line isspace upper line")
    case (Inl e)
    with Cons.prems show ?thesis by simp
  next
    case (Inr r)
    show ?thesis
    proof (cases r)
      case None
      with Inr Cons show ?thesis by simp
    next
      case (Some it)
      with Inr have "snd (snd it) = default_delay" by (simp add: parse_line_delay)
      with Cons.prems(2) have "\<forall>x \<in> set (acc @ [it]). snd (snd x) = default_delay" by simp
      moreover from Cons.prems(1) Inr Some
      have "read_lines isspace upper lns (acc @ [it]) = Inr items" by simp
      ultimately show ?thesis by (rule Cons.IH [rotated])
    qed
  qed
qed

text \<open>
  C5, as the code has it, for every line and whatever the tables of \<^verbatim>\<open>str.isspace\<close>
  and \<^verbatim>\<open>str.upper\<close> are. A blank line and a line whose first character after
  stripping is \<^verbatim>\<open>#\<close> add nothing. On a line with at least two fields the second field
  is upper-cased and decided by the last character of the upper-cased token alone: when
  that is S, A or O the line is accepted with that kind, whatever stands before it;
  otherwise the line raises \<^verbatim>\<open>ValueError\<close>, and a file with such a line ends
  \<^verbatim>\<open>run_from_file\<close> with an error before any thread exists. (\<^verbatim>\<open>vtype[-1]\<close> on an
  empty upper-cased token would raise \<^verbatim>\<open>IndexError\<close>.)
\<close>

theorem parse_line_kind_by_last_letter:
  "((strip isspace line = [] \<or> startswith (strip isspace line) (lit ''#'')) \<longrightarrow>
      parse_line isspace upper line = Inr None)
   \<and> ((strip isspace line \<noteq> [] \<and> \<not> startswith (strip isspace line) (lit ''#'')
        \<and> split isspace (strip isspace line) = name # tok # rest) \<longrightarrow>
      parse_line isspace upper line =
        (if upper tok = [] then Inl IndexError
         else case vtype_of [last (upper tok)] of
                None \<Rightarrow> Inl (ValueError (strip isspace line))
              | Some v \<Rightarrow> Inr (Some (name, v, default_delay))))
   \<and> (((\<exists>e. parse_line isspace upper line = Inl e) \<and> line \<in> set lns) \<longrightarrow>
      (\<exists>e. run_from_file isspace upper k (Some lns) = Inl e))"
proof (intro conjI impI)
  assume "strip isspace line = [] \<or> startswith (strip isspace line) (lit ''#'')"
  then show "parse_line isspace upper line = Inr None" by (rule parse_line_ignored)
next
  assume "strip isspace line \<noteq> [] \<and> \<not> startswith (strip isspace line) (lit ''#'')
        \<and> split isspace (strip isspace line) = name # tok # rest"
  then show "parse_line isspace upper line =
        (if upper tok = [] then Inl IndexError
         else case vtype_of [last (upper tok)] of
                None \<Rightarrow> Inl (ValueError (strip isspace line))
              | Some v \<Rightarrow> Inr (Some (name, v, default_delay)))"
    by (simp add: parse_line_fields)
next
  assume "(\<exists>e. parse_line isspace upper line = Inl e) \<and> line \<in> set lns"
  then obtain e where "parse_line isspace upper line = Inl e" "line \<in> set lns" by blast
  from read_lines_error [OF this(2) this(1), of "[]"]
  show "\<exists>e. run_from_file isspace upper k (Some lns) = Inl e"
    by (auto simp: run_from_file_def read_meeting_info_def)
qed

theorem parse_line_kind_by_last_letter_witness:
  "parse_line ascii_isspace ascii_upper (lit ''bob xs'')
     = Inr (Some (lit ''bob'', Student, default_delay))
   \<and> parse_line ascii_isspace ascii_upper (lit ''bob q'') = Inl (ValueError (lit ''bob q''))
   \<and> (\<exists>e. run_from_file ascii_isspace ascii_upper 1 (Some [lit ''a S'', lit ''bob q'']) = Inl e)
   \<and> parse_line ascii_isspace ascii_upper (lit ''  # note'') = Inr None"
proof -
  have f1: "strip ascii_isspace (lit ''bob xs'') \<noteq> []
      \<and> \<not> startswith (strip ascii_isspace (lit ''bob xs'')) (lit ''#'')
      \<and> split ascii_isspace (strip ascii_isspace (lit ''bob xs'')) = lit ''bob'' # lit ''xs'' # []"
    by code_simp
  have v1: "ascii_upper (lit ''xs'') \<noteq> []
      \<and> vtype_of [last (ascii_upper (lit ''xs''))] = Some Student"
    by code_simp
  have f2: "strip ascii_isspace (lit ''bob q'') \<noteq> []
      \<and> \<not> startswith (strip ascii_isspace (lit ''bob q'')) (lit ''#'')
      \<and> split ascii_isspace (strip ascii_isspace (lit ''bob q'')) = lit ''bob'' # lit ''q'' # []"
    by code_simp
  have v2: "ascii_upper (lit ''q'') \<noteq> [] \<and> vtype_of [last (ascii_upper (lit ''q''))] = None"
    and s2: "strip ascii_isspace (lit ''bob q'') = lit ''bob q''"
    by code_simp+
  have f3: "strip ascii_isspace (lit ''  # note'') = []
      \<or> startswith (strip ascii_isspace (lit ''  # note'')) (lit ''#'')"
    by code_simp
  from parse_line_kind_by_last_letter
    [of ascii_isspace "lit ''bob xs''" ascii_upper "lit ''bob''" "lit ''xs''" "[]"] f1 v1
  have r1: "parse_line ascii_isspace ascii_upper (lit ''bob xs'')
     = Inr (Some (lit ''bob'', Student, default_delay))"
    by simp
  from parse_line_kind_by_last_letter
    [of ascii_isspace "lit ''bob q''" ascii_upper "lit ''bob''" "lit ''q''" "[]"] f2 v2 s2
  have r2: "parse_line ascii_isspace ascii_upper (lit ''bob q'') = Inl (ValueError (lit ''bob q''))"
    by simp
  from parse_line_kind_by_last_letter
    [of ascii_isspace "lit ''bob q''" ascii_upper _ _ _ "[lit ''a S'', lit ''bob q'']" 1] r2
  have r3: "\<exists>e. run_from_file ascii_isspace ascii_upper 1 (Some [lit ''a S'', lit ''bob q'']) = Inl e"
    by simp
  from parse_line_kind_by_last_letter [of ascii_isspace "lit ''  # note''" ascii_upper] f3
  have r4: "parse_line ascii_isspace ascii_upper (lit ''  # note'') = Inr None"
    by blast
  from r1 r2 r3 r4 show ?thesis by blast
qed

text \<open>
  C5 as it is stated fails: the token \<^verbatim>\<open>xs\<close> is none of the letters S, A, O in either
  case, and the line is read as a Student all the same.
\<close>

theorem malformed_kind_token_accepted:
  "vtype_of (ascii_upper (lit ''xs'')) = None
   \<and> read_meeting_info ascii_isspace ascii_upper (ascii_file [''bob xs''])
       = Inr [(lit ''bob'', Student, default_delay)]"
  by code_simp

text \<open>
  C10, for every line and whatever the tables of \<^verbatim>\<open>str.isspace\<close> and
  \<^verbatim>\<open>str.upper\<close> are. \<^verbatim>\<open>read_meeting_info\<close> passes over a line that is neither
  blank nor a comment and has fewer than two fields: the result is that of the file
  without the line, so the line is no error. Every item returned carries the delay
  \<^verbatim>\<open>0.05\<close>.
\<close>

theorem read_meeting_info_short_line_and_delay:
  "((strip isspace line \<noteq> [] \<and> \<not> startswith (strip isspace line) (lit ''#'')
      \<and> length (split isspace (strip isspace line)) < 2) \<longrightarrow>
      read_meeting_info isspace upper (Some (pre @ line # post))
        = read_meeting_info isspace upper (Some (pre @ post)))
   \<and> (read_meeting_info isspace upper file = Inr items \<longrightarrow>
        (\<forall>it \<in> set items. snd (snd it) = 5 / 100))"
proof (intro conjI impI)
  assume "strip isspace line \<noteq> [] \<and> \<not> startswith (strip isspace line) (lit ''#'')
      \<and> length (split isspace (strip isspace line)) < 2"
  then have "parse_line isspace upper line = Inr None" by (simp add: parse_line_short)
  then show "read_meeting_info isspace upper (Some (pre @ line # post))
        = read_meeting_info isspace upper (Some (pre @ post))"
    by (simp add: read_meeting_info_def read_lines_skip)
next
  assume "read_meeting_info isspace upper file = Inr items"
  then obtain lns where "read_lines isspace upper lns [] = Inr items"
    by (auto simp: read_meeting_info_def split: option.splits)
  from read_lines_delay [OF this]
  show "\<forall>it \<in> set items. snd (snd it) = 5 / 100"
    by (simp add: default_delay_def)
qed

theorem read_meeting_info_short_line_and_delay_witness:
  "strip ascii_isspace (lit ''lonely'') \<noteq> []
   \<and> \<not> startswith (strip ascii_isspace (lit ''lonely'')) (lit ''#'')
   \<and> length (split ascii_isspace (strip ascii_isspace (lit ''lonely''))) < 2
   \<and> read_meeting_info ascii_isspace ascii_upper (Some [lit ''a S'', lit ''lonely'', lit ''b A''])
       = read_meeting_info ascii_isspace ascii_upper (Some [lit ''a S'', lit ''b A''])
   \<and> read_meeting_info ascii_isspace ascii_upper (Some [lit ''a S'', lit ''b A''])
       = Inr [(lit ''a'', Student, 5 / 100), (lit ''b'', Admin, 5 / 100)]
   \<and> list_all (\<lambda>it. snd (snd it) = 5 / 100)
       [(lit ''a'', Student, 5 / 100 :: rat), (lit ''b'', Admin, 5 / 100)]"
proof -
  have h: "strip ascii_isspace (lit ''lonely'') \<noteq> []
      \<and> \<not> startswith (strip ascii_isspace (lit ''lonely'')) (lit ''#'')
      \<and> length (split ascii_isspace (strip ascii_isspace (lit ''lonely''))) < 2"
    by code_simp
  have r: "read_meeting_info ascii_isspace ascii_upper (Some [lit ''a S'', lit ''b A''])
       = Inr [(lit ''a'', Student, 5 / 100), (lit ''b'', Admin, 5 / 100)]"
    by code_simp
  from read_meeting_info_short_line_and_delay
    [of ascii_isspace "lit ''lonely''" ascii_upper "[lit ''a S'']" "[lit ''b A'']"] h
  have e: "read_meeting_info ascii_isspace ascii_upper
             (Some [lit ''a S'', lit ''lonely'', lit ''b A''])
       = read_meeting_info ascii_isspace ascii_upper (Some [lit ''a S'', lit ''b A''])"
    by simp
  from read_meeting_info_short_line_and_delay
    [of ascii_isspace _ ascii_upper _ _ "Some [lit ''a S'', lit ''b A'']"
       "[(lit ''a'', Student, 5 / 100), (lit ''b'', Admin, 5 / 100)]"] r
  have d: "list_all (\<lambda>it. snd (snd it) = 5 / 100)
      [(lit ''a'', Student, 5 / 100 :: rat), (lit ''b'', Admin, 5 / 100)]"
    by (simp add: list_all_iff)
  from h r e d show ?thesis by blast
qed

section \<open>Properties of the entry loop\<close>

lemma snd_remove_from_queue_by_index:
  "snd (remove_from_queue_by_index i s) = s\<lparr>entry_order := snd (del_by_index i (entry_order s))\<rparr>"
  by (simp add: remove_from_queue_by_index_def split: prod.splits)

lemmas thread_defs = set_pc_def register_def admit_batch_def admit_online_def cond_wait_def
  depart_batch_def depart_online_def exit_with_def snd_remove_from_queue_by_index

text \<open>
  C1, as the code has it. One pass of the entry loop either admits the visitor or sends it
  to \<^verbatim>\<open>cond.wait()\<close>. It admits exactly when the chamber is empty and the front
  entry of the queue has the visitor's kind (the front entry need not be the visitor's
  own), or, for a Student or an Admin, when the chamber is held by the visitor's kind and
  \<^verbatim>\<open>count < K\<close>. An online meeting is admitted in the first case only.
\<close>

theorem entry_loop_admits_iff:
  assumes "1 \<le> index" "index \<le> length (pcs s)" "pcs s ! (index - 1) = InLoop"
  shows "\<exists>s'. visitor_step name vtype index s = Some s' \<and>
     (pcs s' ! (index - 1) = Inside \<or> pcs s' ! (index - 1) = Waiting) \<and>
     (pcs s' ! (index - 1) = Inside \<longleftrightarrow>
        (current_type s = None \<and> (\<exists>idx nm rest. entry_order s = (idx, nm, vtype) # rest))
        \<or> (vtype \<noteq> Online \<and> current_type s = Some vtype \<and> count s < K s))"
proof -
  from assms have lt: "index - 1 < length (pcs s)" by simp
  show ?thesis
  proof (cases vtype)
    case Student
    with assms lt show ?thesis
      by (auto simp: visitor_step_def thread_defs can_enter_batch_def
          split: option.splits list.splits)
  next
    case Admin
    with assms lt show ?thesis
      by (auto simp: visitor_step_def thread_defs can_enter_batch_def
          split: option.splits list.splits)
  next
    case Online
    with assms lt show ?thesis
      by (auto simp: visitor_step_def thread_defs can_enter_online_def
          split: option.splits list.splits)
  qed
qed

theorem entry_loop_admits_iff_witness:
  "(1::nat) \<le> 2 \<and> 2 \<le> length (pcs front_demo) \<and> pcs front_demo ! (2 - 1) = InLoop
   \<and> current_type front_demo = None
   \<and> entry_order front_demo = (1, lit ''a'', Student) # [(2, lit ''b'', Student)]
   \<and> (\<exists>s'. visitor_step (lit ''b'') Student 2 front_demo = Some s' \<and> pcs s' ! (2 - 1) = Inside)"
proof -
  have h: "(1::nat) \<le> 2" "2 \<le> length (pcs front_demo)" "pcs front_demo ! (2 - 1) = InLoop"
    by (simp_all add: front_demo_def init_state_def)
  have c: "current_type front_demo = None"
    "entry_order front_demo = (1, lit ''a'', Student) # [(2, lit ''b'', Student)]"
    by (simp_all add: front_demo_def init_state_def)
  from entry_loop_admits_iff [OF h, of "lit ''b''" Student] c
  have "\<exists>s'. visitor_step (lit ''b'') Student 2 front_demo = Some s' \<and> pcs s' ! (2 - 1) = Inside"
    by auto
  with h c show ?thesis by blast
qed

text \<open>
  C1 as it is stated fails. After both students have registered and the second has taken
  the lock, the chamber is empty and the front entry is the first student's; the second
  student's own record is not the front, and the entry loop admits it.
\<close>

theorem admitted_behind_front_of_same_kind:
  "case run_sched two_students [1, 1, 2, 2, 2] (init_state 1 2) of
     None \<Rightarrow> False
   | Some s \<Rightarrow>
       pcs s ! (2 - 1) = InLoop \<and> current_type s = None
       \<and> entry_order s = [(1, lit ''a'', Student), (2, lit ''b'', Student)]
       \<and> (case visitor_step (lit ''b'') Student 2 s of
            None \<Rightarrow> False
          | Some s' \<Rightarrow>
              pcs s' ! (2 - 1) = Inside
              \<and> log s' = [ARRIVED (lit ''a'') Student, ARRIVED (lit ''b'') Student, ENTERED (lit ''b'') Student 1])"
  by code_simp

section \<open>Properties of the runner\<close>

text \<open>
  C4, as the code has it. \<^verbatim>\<open>run_from_file\<close> does not look at the capacity: for every
  \<open>k\<close>, positive or not, the run is refused exactly when \<^verbatim>\<open>read_meeting_info\<close>
  fails, with the same error; otherwise one thread per item is created, the capacity is
  stored as given, and the first visitor registers and logs its arrival.
\<close>

theorem run_from_file_any_capacity:
  "(run_from_file isspace upper k file = Inl e \<longleftrightarrow> read_meeting_info isspace upper file = Inl e)
   \<and> (read_meeting_info isspace upper file = Inr ((name, vtype, d) # rest) \<longrightarrow>
        (\<exists>s0 s. run_from_file isspace upper k file = Inr ((name, vtype, d) # rest, s0)
           \<and> K s0 = k \<and> pcs s0 = replicate (Suc (length rest)) Start
           \<and> run_sched ((name, vtype, d) # rest) [1, 1] s0 = Some s
           \<and> log s = [ARRIVED name vtype]))"
  by (auto simp: run_from_file_def init_state_def sched_step_def visitor_step_def set_pc_def
      register_def split: sum.splits)

theorem run_from_file_any_capacity_witness:
  "read_meeting_info ascii_isspace ascii_upper (ascii_file [''a S''])
     = Inr ((lit ''a'', Student, default_delay) # [])
   \<and> (\<exists>s0 s. run_from_file ascii_isspace ascii_upper (- 3) (ascii_file [''a S''])
           = Inr ((lit ''a'', Student, default_delay) # [], s0)
         \<and> K s0 = - 3 \<and> pcs s0 = replicate (Suc (length ([] :: item list))) Start
         \<and> run_sched ((lit ''a'', Student, default_delay) # []) [1, 1] s0 = Some s
         \<and> log s = [ARRIVED (lit ''a'') Student])"
proof -
  have r: "read_meeting_info ascii_isspace ascii_upper (ascii_file [''a S''])
     = Inr ((lit ''a'', Student, default_delay) # [])"
    by code_simp
  from run_from_file_any_capacity
    [of ascii_isspace ascii_upper "- 3" "ascii_file [''a S'']" _ "lit ''a''" Student
       default_delay "[]"] r
  show ?thesis by blast
qed

text \<open>
  C4 as it is stated fails: with capacity 0 the run is not refused; the visitor thread is
  created, registers, and is admitted, and both events are logged.
\<close>

theorem capacity_zero_runs:
  "case run_from_file ascii_isspace ascii_upper 0 (ascii_file [''a S'']) of
     Inl e \<Rightarrow> False
   | Inr (seq, s0) \<Rightarrow>
       seq = [(lit ''a'', Student, default_delay)] \<and> K s0 = 0 \<and> pcs s0 = [Start]
       \<and> (case run_sched seq [1, 1, 1, 1] s0 of
            None \<Rightarrow> False
          | Some s \<Rightarrow>
              log s = [ARRIVED (lit ''a'') Student, ENTERED (lit ''a'') Student 1]
              \<and> pcs s = [Inside] \<and> count s = 1)"
  by code_simp

section \<open>The lock\<close>

lemma num_update:
  "i < length xs \<Longrightarrow>
   num P (xs[i := y]) = num P xs - (if P (xs ! i) then 1 else 0) + (if P y then 1 else 0)"
  unfolding num_def
proof (induction xs arbitrary: i)
  case Nil
  then show ?case by simp
next
  case (Cons x xs)
  show ?case
  proof (cases i)
    case 0
    then show ?thesis by simp
  next
    case (Suc j)
    with Cons.prems have "j < length xs" by simp
    from Cons.IH [OF this] Suc show ?thesis by (auto split: if_splits)
  qed
qed

lemma num_pos: "i < length xs \<Longrightarrow> P (xs ! i) \<Longrightarrow> 1 \<le> num P xs"
proof -
  assume "i < length xs" "P (xs ! i)"
  then have "xs ! i \<in> set (filter P xs)" by simp
  then have "filter P xs \<noteq> []" by force
  then show ?thesis by (cases "filter P xs") (auto simp: num_def)
qed

lemma num_zero: "num P xs = 0 \<Longrightarrow> i < length xs \<Longrightarrow> \<not> P (xs ! i)"
  using num_pos [of i xs P] by auto

lemma num_replicate: "num P (replicate n x) = (if P x then int n else 0)"
  by (simp add: num_def)

lemma lock_inv_init: "lock_inv n (init_state k n)"
  by (simp add: lock_inv_def init_state_def num_replicate)

lemma lock_inv_visitor_step:
  assumes inv: "lock_inv n s" and i: "1 \<le> i" "i \<le> n"
    and st: "visitor_step name vtype i s = Some s'"
  shows "lock_inv n s'"
proof -
  from inv i have lt: "i - 1 < length (pcs s)" by (simp add: lock_inv_def)
  from inv have hl: "num holds_lock (pcs s) = (if lock s then 1 else 0)"
    and ur: "num unreached (pcs s) = 0" and len: "length (pcs s) = n"
    by (simp_all add: lock_inv_def)
  from num_zero [OF ur lt] have nu: "\<not> unreached (pcs s ! (i - 1))" .
  have held: "holds_lock (pcs s ! (i - 1)) \<Longrightarrow> lock s"
    using num_pos [OF lt, of holds_lock] hl by (auto split: if_splits)
  show ?thesis
  proof (cases "pcs s ! (i - 1)")
    case (Notifying ts)
    with held have "lock s" by simp
    with st Notifying lt hl ur len show ?thesis
      by (cases ts) (auto simp: visitor_step_def lock_inv_def thread_defs num_update
          split: if_splits)
  next
    case (InNotify t ts)
    with nu show ?thesis by simp
  next
    case Crashed
    with nu show ?thesis by simp
  next
    case Leaving
    with held have "lock s" by simp
    with st Leaving lt hl ur len show ?thesis
      by (auto simp: visitor_step_def lock_inv_def thread_defs num_update Let_def
          split: if_splits)
  next
    case Registering
    with held have "lock s" by simp
    with st Registering lt hl ur len show ?thesis
      by (auto simp: visitor_step_def lock_inv_def thread_defs num_update)
  next
    case InLoop
    with held have "lock s" by simp
    with st InLoop lt hl ur len show ?thesis
      by (auto simp: visitor_step_def lock_inv_def thread_defs num_update Let_def
          split: if_splits)
  qed (use st lt hl ur len in \<open>auto simp: visitor_step_def lock_inv_def thread_defs num_update
          split: if_splits\<close>)
qed

lemma lock_inv_sched_step:
  assumes "lock_inv (length seq) s" "sched_step seq i s = Some s'"
  shows "lock_inv (length seq) s'"
proof (cases "i = 0")
  case True
  with assms show ?thesis
    by (auto simp: sched_step_def main_join_def lock_inv_def split: if_splits)
next
  case False
  with assms(2) obtain name vtype where
    "1 \<le> i" "i \<le> length seq" "visitor_step name vtype i s = Some s'"
    by (auto simp: sched_step_def split: if_splits prod.splits)
  with assms(1) show ?thesis by (auto intro: lock_inv_visitor_step)
qed

lemma reachable_lock_inv: "reachable k seq s \<Longrightarrow> lock_inv (length seq) s"
  by (induction rule: reachable.induct) (auto intro: lock_inv_init lock_inv_sched_step)

lemma run_sched_reachable:
  "reachable k seq s \<Longrightarrow> run_sched seq sched s = Some s' \<Longrightarrow> reachable k seq s'"
proof (induction sched arbitrary: s)
  case Nil
  then show ?case by simp
next
  case (Cons i sched)
  from Cons.prems(2) obtain s1 where
    s1: "sched_step seq i s = Some s1" "run_sched seq sched s1 = Some s'"
    by (auto split: option.splits)
  from Cons.prems(1) s1(1) have "reachable k seq s1" by (rule reachable_step)
  from Cons.IH [OF this s1(2)] show ?case .
qed

section \<open>The departure and its wake-up\<close>

lemma num_unique:
  "num P xs \<le> 1 \<Longrightarrow> i < length xs \<Longrightarrow> j < length xs \<Longrightarrow> P (xs ! i) \<Longrightarrow> P (xs ! j) \<Longrightarrow> i = j"
proof (induction xs arbitrary: i j)
  case Nil
  then show ?case by simp
next
  case (Cons x xs)
  show ?case
  proof (cases i)
    case i0: 0
    show ?thesis
    proof (cases j)
      case 0
      with i0 show ?thesis by simp
    next
      case (Suc j')
      with Cons.prems have "j' < length xs" "P (xs ! j')" by simp_all
      then have "1 \<le> num P xs" by (rule num_pos)
      with Cons.prems(1,4) i0 show ?thesis by (simp add: num_def)
    qed
  next
    case (Suc i')
    with Cons.prems have i': "i' < length xs" "P (xs ! i')" by simp_all
    then have pi: "1 \<le> num P xs" by (rule num_pos)
    show ?thesis
    proof (cases j)
      case 0
      with pi Cons.prems(1,5) show ?thesis by (simp add: num_def)
    next
      case j: (Suc j')
      with Cons.prems have j': "j' < length xs" "P (xs ! j')" by simp_all
      from Cons.prems(1) have "num P xs \<le> 1" by (simp add: num_def split: if_splits)
      from Cons.IH [OF this i'(1) j'(1) i'(2) j'(2)] Suc j show ?thesis by simp
    qed
  qed
qed

lemma blocked_without_lock:
  assumes "lock s" "\<not> holds_lock (pcs s ! (j - 1))" "\<not> unreached (pcs s ! (j - 1))"
  shows "visitor_step name vtype j s = None"
  using assms by (cases "pcs s ! (j - 1)") (simp_all add: visitor_step_def)

lemma stuck_in_notify:
  assumes r: "reachable k seq s" and i: "1 \<le> i" "i \<le> length seq"
    and pc: "pcs s ! (i - 1) = Notifying (t # ts)" and w: "0 < waiting s t"
  shows "lock s \<and> (\<forall>j. sched_step seq j s = None)"
proof -
  from reachable_lock_inv [OF r] have len: "length (pcs s) = length seq"
    and hl: "num holds_lock (pcs s) = (if lock s then 1 else 0)"
    and ur: "num unreached (pcs s) = 0"
    by (simp_all add: lock_inv_def)
  from i len have lt: "i - 1 < length (pcs s)" by simp
  from num_pos [OF lt, of holds_lock] pc hl have l: "lock s"
    by (auto split: if_splits)
  with hl have one: "num holds_lock (pcs s) \<le> 1" by simp
  have "sched_step seq j s = None" for j
  proof (cases "j = 0")
    case True
    from lt pc have "\<not> list_all (\<lambda>p. p = Done \<or> p = Crashed) (pcs s)"
      by (auto simp: list_all_length)
    with True show ?thesis by (simp add: sched_step_def main_join_def)
  next
    case j0: False
    show ?thesis
    proof (cases "j \<le> length seq")
      case False
      with j0 show ?thesis by (simp add: sched_step_def)
    next
      case True
      with j0 len have ltj: "j - 1 < length (pcs s)" by simp
      show ?thesis
      proof (cases "j = i")
        case True
        with pc w l j0 i show ?thesis
          by (simp add: sched_step_def visitor_step_def split: prod.splits)
      next
        case False
        with j0 i have ne: "j - 1 \<noteq> i - 1" by simp
        have "\<not> holds_lock (pcs s ! (j - 1))"
        proof
          assume "holds_lock (pcs s ! (j - 1))"
          from num_unique [OF one ltj lt this] pc ne show False by simp
        qed
        moreover from num_zero [OF ur ltj] have "\<not> unreached (pcs s ! (j - 1))" .
        ultimately show ?thesis using l j0 True
          by (simp add: sched_step_def blocked_without_lock split: prod.splits)
      qed
    qed
  qed
  with l show ?thesis by simp
qed

lemma never_in_notify:
  "reachable k seq s \<Longrightarrow> j < length (pcs s) \<Longrightarrow> pcs s ! j \<noteq> InNotify t ts"
proof -
  assume r: "reachable k seq s" and j: "j < length (pcs s)"
  from reachable_lock_inv [OF r] have "num unreached (pcs s) = 0" by (simp add: lock_inv_def)
  from num_zero [OF this j] show ?thesis by auto
qed

text \<open>
  C6, where the code departs from it. The departing thread runs its notify loop inside
  \<^verbatim>\<open>with chamber.lock\<close>. When it comes to a kind \<open>t\<close> with \<^verbatim>\<open>waiting[t] > 0\<close>,
  \<^verbatim>\<open>with chamber.cond[t]\<close> asks for the lock the thread itself holds: the lock stays
  taken, no thread of the program can move any more, and in no run does any thread stand
  inside \<^verbatim>\<open>with chamber.cond[t]\<close>, where \<^verbatim>\<open>notify_all\<close> is called.
\<close>

theorem departure_blocks_before_notify_all:
  assumes "reachable k seq s" "1 \<le> i" "i \<le> length seq"
    "pcs s ! (i - 1) = Notifying (t # ts)" "0 < waiting s t"
  shows "lock s \<and> (\<forall>j. sched_step seq j s = None)
     \<and> (\<forall>j t' ts'. j < length (pcs s) \<longrightarrow> pcs s ! j \<noteq> InNotify t' ts')"
  using stuck_in_notify [OF assms] never_in_notify [OF assms(1)] by blast

theorem departure_blocks_before_notify_all_witness:
  "case run_sched two_students [1, 1, 1, 1, 2, 2, 2, 2, 1, 1, 1]
          (init_state 1 (length two_students)) of
     None \<Rightarrow> False
   | Some s \<Rightarrow>
       pcs s = [Notifying [Student, Admin], Waiting] \<and> waiting s Student = 1
       \<and> cond s Student = [2] \<and> current_type s = None \<and> count s = 0
       \<and> lock s \<and> (\<forall>j. sched_step two_students j s = None)"
proof -
  have "case run_sched two_students [1, 1, 1, 1, 2, 2, 2, 2, 1, 1, 1]
          (init_state 1 (length two_students)) of
     None \<Rightarrow> False
   | Some s \<Rightarrow>
       pcs s = [Notifying [Student, Admin], Waiting] \<and> waiting s Student = 1
       \<and> cond s Student = [2] \<and> current_type s = None \<and> count s = 0"
    by code_simp
  then obtain s where s:
    "run_sched two_students [1, 1, 1, 1, 2, 2, 2, 2, 1, 1, 1]
       (init_state 1 (length two_students)) = Some s"
    "pcs s = [Notifying [Student, Admin], Waiting]" "waiting s Student = 1"
    "cond s Student = [2]" "current_type s = None" "count s = 0"
    by (auto split: option.splits)
  from run_sched_reachable [OF reachable_init s(1)] have r: "reachable 1 two_students s" .
  have "lock s \<and> (\<forall>j. sched_step two_students j s = None)
     \<and> (\<forall>j t' ts'. j < length (pcs s) \<longrightarrow> pcs s ! j \<noteq> InNotify t' ts')"
    by (rule departure_blocks_before_notify_all [OF r, of 1 Student "[Admin]"])
       (simp_all add: s two_students_def)
  with s show ?thesis by simp
qed

text \<open>
  C3, where the code departs from it: the run of the file \<^verbatim>\<open>o1 O\<close>, \<^verbatim>\<open>s1 S\<close> with
  capacity 1, in the order the sleeps of the source give. The online meeting starts; the
  student arrives and waits; the online meeting ends and its thread stops in the notify
  loop at the kind Student. From there
  no thread can move: the student is never admitted and the run never finishes, with
  two arrivals, one start and one end in the log.
\<close>

theorem online_then_student_deadlocks:
  "read_meeting_info ascii_isspace ascii_upper (ascii_file [''o1 O'', ''s1 S''])
     = Inr online_then_student
   \<and> (case run_sched online_then_student [1, 1, 1, 1, 2, 2, 2, 2, 1, 1, 1]
            (init_state 1 (length online_then_student)) of
        None \<Rightarrow> False
      | Some s \<Rightarrow>
          log s = [ARRIVED (lit ''o1'') Online, STARTED (lit ''o1''), ARRIVED (lit ''s1'') Student, ENDED (lit ''o1'')]
          \<and> pcs s = [Notifying [Student, Admin], Waiting]
          \<and> entry_order s = [(2, lit ''s1'', Student)]
          \<and> \<not> finished s
          \<and> (\<forall>j. sched_step online_then_student j s = None))"
proof -
  have rd: "read_meeting_info ascii_isspace ascii_upper (ascii_file [''o1 O'', ''s1 S''])
     = Inr online_then_student"
    by code_simp
  have "case run_sched online_then_student [1, 1, 1, 1, 2, 2, 2, 2, 1, 1, 1]
            (init_state 1 (length online_then_student)) of
        None \<Rightarrow> False
      | Some s \<Rightarrow>
          log s = [ARRIVED (lit ''o1'') Online, STARTED (lit ''o1''), ARRIVED (lit ''s1'') Student, ENDED (lit ''o1'')]
          \<and> pcs s = [Notifying [Student, Admin], Waiting]
          \<and> entry_order s = [(2, lit ''s1'', Student)]
          \<and> \<not> finished s \<and> waiting s Student = 1"
    by code_simp
  then obtain s where s:
    "run_sched online_then_student [1, 1, 1, 1, 2, 2, 2, 2, 1, 1, 1]
       (init_state 1 (length online_then_student)) = Some s"
    "log s = [ARRIVED (lit ''o1'') Online, STARTED (lit ''o1''), ARRIVED (lit ''s1'') Student, ENDED (lit ''o1'')]"
    "pcs s = [Notifying [Student, Admin], Waiting]"
    "entry_order s = [(2, lit ''s1'', Student)]" "\<not> finished s" "waiting s Student = 1"
    by (auto split: option.splits)
  from run_sched_reachable [OF reachable_init s(1)]
  have r: "reachable 1 online_then_student s" .
  have "lock s \<and> (\<forall>j. sched_step online_then_student j s = None)"
    by (rule stuck_in_notify [OF r, of 1 Student "[Admin]"])
       (simp_all add: s online_then_student_def)
  with rd s show ?thesis by simp
qed

section \<open>Opening a session\<close>

lemma visitor_step_keeps_current_type:
  assumes "visitor_step name vtype i s = Some s'" "pcs s ! (i - 1) \<noteq> InLoop"
    "current_type s = None"
  shows "current_type s' = None"
proof (cases "pcs s ! (i - 1)")
  case (Notifying ts)
  with assms show ?thesis
    by (cases ts) (auto simp: visitor_step_def thread_defs split: if_splits)
next
  case (InNotify t ts)
  with assms show ?thesis
    by (auto simp: visitor_step_def thread_defs notify_all_def)
qed (use assms in \<open>auto simp: visitor_step_def thread_defs Let_def split: if_splits\<close>)

text \<open>
  C7. Whenever a step of a run takes the chamber from empty (\<^verbatim>\<open>current_type is None\<close>)
  to occupied, the step is the admission of a visitor at the top of its entry loop, and
  the kind of that visitor, which becomes the occupying kind, is the kind of the front
  entry of the queue at that moment.
\<close>

theorem opening_admits_front_kind:
  assumes r: "reachable k seq s" and st: "sched_step seq i s = Some s'"
    and e: "current_type s = None" and o: "current_type s' = Some v"
  shows "1 \<le> i \<and> i \<le> length seq \<and> pcs s ! (i - 1) = InLoop \<and> pcs s' ! (i - 1) = Inside
     \<and> fst (snd (seq ! (i - 1))) = v \<and> (\<exists>idx nm rest. entry_order s = (idx, nm, v) # rest)"
proof -
  from reachable_lock_inv [OF r] have len: "length (pcs s) = length seq"
    by (simp add: lock_inv_def)
  have i0: "i \<noteq> 0"
  proof
    assume "i = 0"
    with st e o show False by (auto simp: sched_step_def main_join_def split: if_splits)
  qed
  with st obtain name vtype d where
    i: "1 \<le> i" "i \<le> length seq" and it: "seq ! (i - 1) = (name, vtype, d)"
    and vs: "visitor_step name vtype i s = Some s'"
    by (auto simp: sched_step_def split: if_splits prod.splits)
  from i len have lt: "i - 1 < length (pcs s)" by simp
  have pc: "pcs s ! (i - 1) = InLoop"
  proof (rule ccontr)
    assume "pcs s ! (i - 1) \<noteq> InLoop"
    from visitor_step_keeps_current_type [OF vs this e] o show False by simp
  qed
  show ?thesis
  proof (cases "vtype = Online")
    case True
    with vs pc e o lt it i show ?thesis
      by (auto simp: visitor_step_def thread_defs can_enter_online_def
          split: if_splits list.splits)
  next
    case False
    then have "vtype = Student \<or> vtype = Admin" by (cases vtype) auto
    with vs pc e o lt it i show ?thesis
      by (auto simp: visitor_step_def thread_defs can_enter_batch_def
          split: if_splits list.splits)
  qed
qed

theorem opening_admits_front_kind_witness:
  "case run_sched online_then_student [1, 1, 2, 2, 1]
          (init_state 1 (length online_then_student)) of
     None \<Rightarrow> False
   | Some s \<Rightarrow>
       current_type s = None
       \<and> entry_order s = [(1, lit ''o1'', Online), (2, lit ''s1'', Student)]
       \<and> (case sched_step online_then_student 1 s of
            None \<Rightarrow> False
          | Some s' \<Rightarrow>
              current_type s' = Some Online
              \<and> pcs s ! (1 - 1) = InLoop \<and> pcs s' ! (1 - 1) = Inside
              \<and> fst (snd (online_then_student ! (1 - 1))) = Online
              \<and> (\<exists>idx nm rest. entry_order s = (idx, nm, Online) # rest))"
proof -
  have "case run_sched online_then_student [1, 1, 2, 2, 1]
          (init_state 1 (length online_then_student)) of
     None \<Rightarrow> False
   | Some s \<Rightarrow>
       current_type s = None
       \<and> entry_order s = [(1, lit ''o1'', Online), (2, lit ''s1'', Student)]
       \<and> (case sched_step online_then_student 1 s of
            None \<Rightarrow> False
          | Some s' \<Rightarrow> current_type s' = Some Online)"
    by code_simp
  then obtain s s' where s:
    "run_sched online_then_student [1, 1, 2, 2, 1]
       (init_state 1 (length online_then_student)) = Some s"
    "current_type s = None" "entry_order s = [(1, lit ''o1'', Online), (2, lit ''s1'', Student)]"
    "sched_step online_then_student 1 s = Some s'" "current_type s' = Some Online"
    by (auto split: option.splits)
  from run_sched_reachable [OF reachable_init s(1)]
  have r: "reachable 1 online_then_student s" .
  from opening_admits_front_kind [OF r s(4) s(2) s(5)] s show ?thesis by simp
qed

section \<open>Occupancy\<close>

lemma visitor_step_occupancy:
  assumes st: "visitor_step name vtype i s = Some s'" and lt: "i - 1 < length (pcs s)"
    and nu: "\<not> unreached (pcs s ! (i - 1))"
  shows "\<exists>p'. pcs s' = (pcs s)[i - 1 := p'] \<and> K s' = K s \<and>
     ((occupying p' = occupying (pcs s ! (i - 1)) \<and> count s' = count s
          \<and> current_type s' = current_type s)
      \<or> (pcs s ! (i - 1) = InLoop \<and> p' = Inside \<and> current_type s' = Some vtype
          \<and> (current_type s = None \<and> (count s' = count s + 1 \<or> count s' = 1)
              \<or> current_type s = Some vtype \<and> vtype \<noteq> Online \<and> count s < K s
                  \<and> count s' = count s + 1))
      \<or> (pcs s ! (i - 1) = Leaving \<and> \<not> occupying p'
          \<and> (vtype \<noteq> Online \<and> count s' = count s - 1
                \<and> current_type s' = (if count s - 1 = 0 then None else current_type s)
              \<or> vtype = Online \<and> count s' = 0 \<and> current_type s' = None)))"
proof (cases "pcs s ! (i - 1)")
  case (Notifying ts)
  with st show ?thesis
    by (cases ts) (auto simp: visitor_step_def thread_defs split: if_splits)
next
  case (InNotify t ts)
  with nu show ?thesis by simp
next
  case Crashed
  with nu show ?thesis by simp
next
  case InLoop
  show ?thesis
  proof (cases vtype)
    case Student
    with st InLoop show ?thesis
      by (auto simp: visitor_step_def thread_defs can_enter_batch_def
          split: if_splits option.splits)
  next
    case Admin
    with st InLoop show ?thesis
      by (auto simp: visitor_step_def thread_defs can_enter_batch_def
          split: if_splits option.splits)
  next
    case Online
    with st InLoop show ?thesis
      by (auto simp: visitor_step_def thread_defs can_enter_online_def
          split: if_splits option.splits)
  qed
next
  case Leaving
  show ?thesis
  proof (cases vtype)
    case Student
    with st Leaving show ?thesis
      by (auto simp: visitor_step_def thread_defs Let_def split: if_splits)
  next
    case Admin
    with st Leaving show ?thesis
      by (auto simp: visitor_step_def thread_defs Let_def split: if_splits)
  next
    case Online
    with st Leaving show ?thesis
      by (auto simp: visitor_step_def thread_defs Let_def split: if_splits)
  qed
qed (use st in \<open>auto simp: visitor_step_def thread_defs split: if_splits\<close>)

lemma occ_inv_init: "occ_inv k seq (init_state k n)"
  by (simp add: occ_inv_def init_state_def num_replicate)

lemma occ_invI:
  assumes "K s = k" "count s = num occupying (pcs s)"
    "\<And>j. j < length (pcs s) \<Longrightarrow> occupying (pcs s ! j) \<Longrightarrow>
       current_type s = Some (fst (snd (seq ! j)))"
    "current_type s = None \<Longrightarrow> count s = 0"
    "current_type s = Some Online \<Longrightarrow> count s = 1"
    "current_type s \<noteq> None \<Longrightarrow> 1 \<le> count s \<and> count s \<le> max 1 k"
  shows "occ_inv k seq s"
  using assms unfolding occ_inv_def by blast

lemma occ_inv_visitor_step:
  assumes inv: "occ_inv k seq s" and lt: "i - 1 < length (pcs s)"
    and nu: "\<not> unreached (pcs s ! (i - 1))"
    and kind: "fst (snd (seq ! (i - 1))) = vtype"
    and st: "visitor_step name vtype i s = Some s'"
  shows "occ_inv k seq s'"
proof -
  from visitor_step_occupancy [OF st lt nu] obtain p' where
    p: "pcs s' = (pcs s)[i - 1 := p']" and K': "K s' = K s" and
    eff: "(occupying p' = occupying (pcs s ! (i - 1)) \<and> count s' = count s
          \<and> current_type s' = current_type s)
      \<or> (pcs s ! (i - 1) = InLoop \<and> p' = Inside \<and> current_type s' = Some vtype
          \<and> (current_type s = None \<and> (count s' = count s + 1 \<or> count s' = 1)
              \<or> current_type s = Some vtype \<and> vtype \<noteq> Online \<and> count s < K s
                  \<and> count s' = count s + 1))
      \<or> (pcs s ! (i - 1) = Leaving \<and> \<not> occupying p'
          \<and> (vtype \<noteq> Online \<and> count s' = count s - 1
                \<and> current_type s' = (if count s - 1 = 0 then None else current_type s)
              \<or> vtype = Online \<and> count s' = 0 \<and> current_type s' = None))"
    by blast
  from inv have k: "K s = k" and c: "count s = num occupying (pcs s)"
    and kinds: "\<And>j. j < length (pcs s) \<Longrightarrow> occupying (pcs s ! j) \<Longrightarrow>
                  current_type s = Some (fst (snd (seq ! j)))"
    and c0: "current_type s = None \<Longrightarrow> count s = 0"
    and c1: "current_type s = Some Online \<Longrightarrow> count s = 1"
    and cb: "current_type s \<noteq> None \<Longrightarrow> 1 \<le> count s \<and> count s \<le> max 1 k"
    unfolding occ_inv_def by blast+
  have len: "length (pcs s') = length (pcs s)" by (simp add: p)
  have n': "num occupying (pcs s') = num occupying (pcs s)
      - (if occupying (pcs s ! (i - 1)) then 1 else 0) + (if occupying p' then 1 else 0)"
    unfolding p by (rule num_update [OF lt])
  have here: "pcs s' ! (i - 1) = p'" using lt by (simp add: p)
  have other: "\<And>j. j \<noteq> i - 1 \<Longrightarrow> pcs s' ! j = pcs s ! j" by (simp add: p)
  from eff consider
      (frame) "occupying p' = occupying (pcs s ! (i - 1))" "count s' = count s"
        "current_type s' = current_type s"
    | (open_session) "pcs s ! (i - 1) = InLoop" "p' = Inside" "current_type s' = Some vtype"
        "current_type s = None" "count s' = count s + 1 \<or> count s' = 1"
    | (join) "pcs s ! (i - 1) = InLoop" "p' = Inside" "current_type s' = Some vtype"
        "current_type s = Some vtype" "vtype \<noteq> Online" "count s < K s" "count s' = count s + 1"
    | (leave_batch) "pcs s ! (i - 1) = Leaving" "\<not> occupying p'" "vtype \<noteq> Online"
        "count s' = count s - 1"
        "current_type s' = (if count s - 1 = 0 then None else current_type s)"
    | (leave_online) "pcs s ! (i - 1) = Leaving" "\<not> occupying p'" "vtype = Online"
        "count s' = 0" "current_type s' = None"
    by (elim disjE conjE) blast+
  then show ?thesis
  proof cases
    case frame
    show ?thesis
    proof (rule occ_invI)
      show "K s' = k" using K' k by simp
      show "count s' = num occupying (pcs s')" using frame c n' by simp
      show "current_type s' = Some (fst (snd (seq ! j)))"
        if "j < length (pcs s')" "occupying (pcs s' ! j)" for j
      proof (cases "j = i - 1")
        case True
        with that here frame(1) have "occupying (pcs s ! (i - 1))" by simp
        from kinds [OF lt this] True frame(3) show ?thesis by simp
      next
        case False
        with that other len have "j < length (pcs s)" "occupying (pcs s ! j)" by simp_all
        from kinds [OF this] frame(3) show ?thesis by simp
      qed
      show "count s' = 0" if "current_type s' = None" using that frame c0 by simp
      show "count s' = 1" if "current_type s' = Some Online" using that frame c1 by simp
      show "1 \<le> count s' \<and> count s' \<le> max 1 k" if "current_type s' \<noteq> None"
        using that frame cb by simp
    qed
  next
    case open_session
    from c0 [OF open_session(4)] have z: "count s = 0" .
    with open_session(5) have one: "count s' = 1" by auto
    from z c have nz: "num occupying (pcs s) = 0" by simp
    show ?thesis
    proof (rule occ_invI)
      show "K s' = k" using K' k by simp
      show "count s' = num occupying (pcs s')" using one nz n' open_session(1,2) by simp
      show "current_type s' = Some (fst (snd (seq ! j)))"
        if "j < length (pcs s')" "occupying (pcs s' ! j)" for j
      proof (cases "j = i - 1")
        case True
        with open_session(3) kind show ?thesis by simp
      next
        case False
        with that other len have "j < length (pcs s)" "occupying (pcs s ! j)" by simp_all
        with num_zero [OF nz] show ?thesis by blast
      qed
      show "count s' = 0" if "current_type s' = None" using that open_session(3) by simp
      show "count s' = 1" if "current_type s' = Some Online" using one .
      show "1 \<le> count s' \<and> count s' \<le> max 1 k" if "current_type s' \<noteq> None"
        using one by simp
    qed
  next
    case join
    from cb join(4) have b: "1 \<le> count s" by simp
    show ?thesis
    proof (rule occ_invI)
      show "K s' = k" using K' k by simp
      show "count s' = num occupying (pcs s')" using join(1,2,7) c n' by simp
      show "current_type s' = Some (fst (snd (seq ! j)))"
        if "j < length (pcs s')" "occupying (pcs s' ! j)" for j
      proof (cases "j = i - 1")
        case True
        with join(3) kind show ?thesis by simp
      next
        case False
        with that other len have "j < length (pcs s)" "occupying (pcs s ! j)" by simp_all
        from kinds [OF this] join(3,4) show ?thesis by simp
      qed
      show "count s' = 0" if "current_type s' = None" using that join(3) by simp
      show "count s' = 1" if "current_type s' = Some Online" using that join(3,5) by simp
      show "1 \<le> count s' \<and> count s' \<le> max 1 k" if "current_type s' \<noteq> None"
        using b join(6,7) k by simp
    qed
  next
    case leave_batch
    from leave_batch(1) have occ: "occupying (pcs s ! (i - 1))" by simp
    from kinds [OF lt occ] kind have ct: "current_type s = Some vtype" by simp
    from n' occ leave_batch(2) c have n1: "num occupying (pcs s') = count s - 1" by simp
    from cb ct have b: "1 \<le> count s" "count s \<le> max 1 k" by simp_all
    show ?thesis
    proof (rule occ_invI)
      show "K s' = k" using K' k by simp
      show "count s' = num occupying (pcs s')" using n1 leave_batch(4) by simp
      show "current_type s' = Some (fst (snd (seq ! j)))"
        if "j < length (pcs s')" "occupying (pcs s' ! j)" for j
      proof -
        from that have "1 \<le> num occupying (pcs s')" by (rule num_pos)
        with n1 have nz: "count s - 1 \<noteq> 0" by simp
        from that(2) here leave_batch(2) have "j \<noteq> i - 1" by auto
        with that other len have "j < length (pcs s)" "occupying (pcs s ! j)" by simp_all
        from kinds [OF this] nz leave_batch(5) show ?thesis by simp
      qed
      show "count s' = 0" if "current_type s' = None"
        using that leave_batch(4,5) ct by (simp split: if_splits)
      show "count s' = 1" if "current_type s' = Some Online"
        using that leave_batch(3,5) ct by (simp split: if_splits)
      show "1 \<le> count s' \<and> count s' \<le> max 1 k" if "current_type s' \<noteq> None"
        using that leave_batch(4,5) b by (simp split: if_splits)
    qed
  next
    case leave_online
    from leave_online(1) have occ: "occupying (pcs s ! (i - 1))" by simp
    from kinds [OF lt occ] kind leave_online(3) have ct: "current_type s = Some Online" by simp
    from c1 [OF ct] c have "num occupying (pcs s) = 1" by simp
    with n' occ leave_online(2) have nz: "num occupying (pcs s') = 0" by simp
    show ?thesis
    proof (rule occ_invI)
      show "K s' = k" using K' k by simp
      show "count s' = num occupying (pcs s')" using nz leave_online(4) by simp
      show "current_type s' = Some (fst (snd (seq ! j)))"
        if "j < length (pcs s')" "occupying (pcs s' ! j)" for j
        using num_zero [OF nz that(1)] that(2) by simp
      show "count s' = 0" if "current_type s' = None" using leave_online(4) .
      show "count s' = 1" if "current_type s' = Some Online" using that leave_online(5) by simp
      show "1 \<le> count s' \<and> count s' \<le> max 1 k" if "current_type s' \<noteq> None"
        using that leave_online(5) by simp
    qed
  qed
qed

lemma occ_inv_sched_step:
  assumes li: "lock_inv (length seq) s" and inv: "occ_inv k seq s"
    and st: "sched_step seq i s = Some s'"
  shows "occ_inv k seq s'"
proof (cases "i = 0")
  case True
  with inv st show ?thesis
    by (auto simp: sched_step_def main_join_def occ_inv_def split: if_splits)
next
  case False
  with st obtain name vtype d where
    i: "1 \<le> i" "i \<le> length seq" and it: "seq ! (i - 1) = (name, vtype, d)"
    and vs: "visitor_step name vtype i s = Some s'"
    by (auto simp: sched_step_def split: if_splits prod.splits)
  from li i have lt: "i - 1 < length (pcs s)" by (simp add: lock_inv_def)
  from li have "num unreached (pcs s) = 0" by (simp add: lock_inv_def)
  from num_zero [OF this lt] have nu: "\<not> unreached (pcs s ! (i - 1))" .
  from it have "fst (snd (seq ! (i - 1))) = vtype" by simp
  from occ_inv_visitor_step [OF inv lt nu this vs] show ?thesis .
qed

lemma reachable_occ_inv: "reachable k seq s \<Longrightarrow> occ_inv k seq s"
proof (induction rule: reachable.induct)
  case reachable_init
  show ?case by (rule occ_inv_init)
next
  case (reachable_step s i s')
  from reachable_lock_inv [OF reachable_step(1)] reachable_step(3,2)
  show ?case by (rule occ_inv_sched_step)
qed

text \<open>
  C2, as the code has it. At every control point of a run, and so whenever the lock is
  free: if the chamber is held by Students or by Admins, the count is between 0 and
  \<open>max 1 K\<close>, and so at most \<^verbatim>\<open>K\<close> whenever \<^verbatim>\<open>K\<close> is at least 1; if it is held
  by an online meeting the count is 1; if it is empty the count is 0. The count is the
  number of visitors that hold the chamber, and any two of them are of the same kind.
\<close>

theorem occupancy_invariant:
  assumes "reachable k seq s"
  shows "((current_type s = Some Student \<or> current_type s = Some Admin) \<longrightarrow>
          0 \<le> count s \<and> count s \<le> max 1 (K s) \<and> (1 \<le> K s \<longrightarrow> count s \<le> K s))
     \<and> (current_type s = Some Online \<longrightarrow> count s = 1)
     \<and> (current_type s = None \<longrightarrow> count s = 0)
     \<and> K s = k
     \<and> count s = num occupying (pcs s)
     \<and> (\<forall>i j. i < length seq \<and> j < length seq \<and> occupying (pcs s ! i) \<and> occupying (pcs s ! j)
          \<longrightarrow> fst (snd (seq ! i)) = fst (snd (seq ! j)))"
proof -
  from reachable_occ_inv [OF assms] have inv: "occ_inv k seq s" .
  from reachable_lock_inv [OF assms] have len: "length (pcs s) = length seq"
    by (simp add: lock_inv_def)
  from inv have k: "K s = k" and c: "count s = num occupying (pcs s)"
    and kinds: "\<And>j. j < length (pcs s) \<Longrightarrow> occupying (pcs s ! j) \<Longrightarrow>
                  current_type s = Some (fst (snd (seq ! j)))"
    and c0: "current_type s = None \<Longrightarrow> count s = 0"
    and c1: "current_type s = Some Online \<Longrightarrow> count s = 1"
    and cb: "current_type s \<noteq> None \<Longrightarrow> 1 \<le> count s \<and> count s \<le> max 1 k"
    unfolding occ_inv_def by blast+
  have same: "fst (snd (seq ! i)) = fst (snd (seq ! j))"
    if "i < length seq" "j < length seq" "occupying (pcs s ! i)" "occupying (pcs s ! j)" for i j
  proof -
    from that len kinds [of i] kinds [of j]
    have "Some (fst (snd (seq ! i))) = Some (fst (snd (seq ! j)))" by simp
    then show ?thesis by simp
  qed
  have batch: "0 \<le> count s \<and> count s \<le> max 1 (K s) \<and> (1 \<le> K s \<longrightarrow> count s \<le> K s)"
    if "current_type s = Some Student \<or> current_type s = Some Admin"
  proof -
    from that have "current_type s \<noteq> None" by auto
    from cb [OF this] k show ?thesis by auto
  qed
  from batch c0 c1 k c same show ?thesis by blast
qed

theorem occupancy_invariant_witness:
  "case run_sched two_students both_inside (init_state 2 (length two_students)) of
     None \<Rightarrow> False
   | Some s \<Rightarrow>
       \<not> lock s \<and> pcs s = [Inside, Inside] \<and> current_type s = Some Student \<and> K s = 2
       \<and> count s = 2 \<and> 0 \<le> count s \<and> count s \<le> K s \<and> count s = num occupying (pcs s)"
proof -
  have "case run_sched two_students both_inside (init_state 2 (length two_students)) of
     None \<Rightarrow> False
   | Some s \<Rightarrow>
       \<not> lock s \<and> pcs s = [Inside, Inside] \<and> current_type s = Some Student \<and> K s = 2
       \<and> count s = 2"
    by code_simp
  then obtain s where s:
    "run_sched two_students both_inside (init_state 2 (length two_students)) = Some s"
    "\<not> lock s" "pcs s = [Inside, Inside]" "current_type s = Some Student" "K s = 2"
    "count s = 2"
    by (auto split: option.splits)
  from run_sched_reachable [OF reachable_init s(1)] have r: "reachable 2 two_students s" .
  from occupancy_invariant [OF r] s(4,5)
  have "0 \<le> count s \<and> count s \<le> K s \<and> count s = num occupying (pcs s)" by simp
  with s show ?thesis by simp
qed

text \<open>
  C2 as it is stated fails: the bound \<^verbatim>\<open>count \<le> K\<close> does not hold for a capacity
  below 1, which the code accepts. With capacity 0 the first student finds the chamber
  empty, a test that does not read \<^verbatim>\<open>K\<close>, and enters: the lock is free, the chamber
  is held by Students, and the count is 1.
\<close>

theorem count_exceeds_capacity_zero:
  "case run_sched [(lit ''a'', Student, default_delay)] [1, 1, 1, 1] (init_state 0 1) of
     None \<Rightarrow> False
   | Some s \<Rightarrow>
       \<not> lock s \<and> current_type s = Some Student \<and> K s = 0 \<and> count s = 1
       \<and> \<not> (count s \<le> K s)"
  by code_simp

section \<open>The ledger\<close>

lemma visitor_step_ledger:
  assumes st: "visitor_step name vtype i s = Some s'"
    and nu: "\<not> unreached (pcs s ! (i - 1))"
  shows "\<exists>p'. pcs s' = (pcs s)[i - 1 := p'] \<and>
     ((queued p' = queued (pcs s ! (i - 1)) \<and> entry_order s' = entry_order s
          \<and> waiting s' = waiting s)
      \<or> (pcs s ! (i - 1) = Registering \<and> p' = AtEntry
          \<and> entry_order s' = entry_order s @ [(i, name, vtype)]
          \<and> waiting s' = (waiting s)(vtype := waiting s vtype + 1))
      \<or> (pcs s ! (i - 1) = InLoop \<and> p' = Inside
          \<and> entry_order s' = snd (del_by_index i (entry_order s))
          \<and> waiting s' = (waiting s)(vtype := waiting s vtype - 1)))"
proof (cases "pcs s ! (i - 1)")
  case (Notifying ts)
  with st show ?thesis
    by (cases ts) (auto simp: visitor_step_def thread_defs split: if_splits)
next
  case (InNotify t ts)
  with nu show ?thesis by simp
next
  case Crashed
  with nu show ?thesis by simp
next
  case InLoop
  show ?thesis
  proof (cases vtype)
    case Student
    with st InLoop show ?thesis
      by (auto simp: visitor_step_def thread_defs split: if_splits)
  next
    case Admin
    with st InLoop show ?thesis
      by (auto simp: visitor_step_def thread_defs split: if_splits)
  next
    case Online
    with st InLoop show ?thesis
      by (auto simp: visitor_step_def thread_defs split: if_splits)
  qed
next
  case Leaving
  with st show ?thesis
    by (auto simp: visitor_step_def thread_defs Let_def split: if_splits)
qed (use st in \<open>auto simp: visitor_step_def thread_defs split: if_splits\<close>)

lemma del_by_index_filter:
  "distinct (map fst q) \<Longrightarrow> snd (del_by_index i q) = filter (\<lambda>e. fst e \<noteq> i) q"
proof (induction q)
  case Nil
  then show ?case by simp
next
  case (Cons a q)
  obtain idx name vtype where a: "a = (idx, name, vtype)" by (cases a)
  show ?case
  proof (cases "idx = i")
    case True
    with Cons.prems a have "\<forall>e \<in> set q. fst e \<noteq> i" by auto
    then have "filter (\<lambda>e. fst e \<noteq> i) q = q" by simp
    with True a show ?thesis by simp
  next
    case False
    with Cons a show ?thesis by (cases "del_by_index i q") auto
  qed
qed

lemma num_append: "num P (xs @ [x]) = num P xs + (if P x then 1 else 0)"
  by (simp add: num_def)

lemma num_filter_out:
  "distinct (map fst q) \<Longrightarrow> e \<in> set q \<Longrightarrow>
   num P (filter (\<lambda>x. fst x \<noteq> fst e) q) = num P q - (if P e then 1 else 0)"
proof (induction q)
  case Nil
  then show ?case by simp
next
  case (Cons a q)
  show ?case
  proof (cases "a = e")
    case True
    with Cons.prems(1) have "fst e \<notin> fst ` set q" by simp
    then have "\<forall>x \<in> set q. fst x \<noteq> fst e" by (metis image_eqI)
    then have "filter (\<lambda>x. fst x \<noteq> fst e) q = q" by simp
    with True show ?thesis by (simp add: num_def)
  next
    case False
    with Cons.prems have e: "e \<in> set q" and d: "distinct (map fst q)" by auto
    from Cons.prems(1) have "fst a \<notin> fst ` set q" by simp
    with e have "fst a \<noteq> fst e" by (metis image_eqI)
    with Cons.IH [OF d e] show ?thesis by (auto simp: num_def split: if_splits)
  qed
qed

lemma ledger_invI:
  assumes "distinct (map fst (entry_order s))"
    "\<And>e. e \<in> set (entry_order s) \<Longrightarrow>
       1 \<le> fst e \<and> fst e \<le> length (pcs s) \<and> queued (pcs s ! (fst e - 1))
       \<and> snd e = (fst (seq ! (fst e - 1)), fst (snd (seq ! (fst e - 1))))"
    "\<And>j. j < length (pcs s) \<Longrightarrow> queued (pcs s ! j) \<Longrightarrow> Suc j \<in> fst ` set (entry_order s)"
    "\<And>v. waiting s v = num (\<lambda>e. snd (snd e) = v) (entry_order s)"
  shows "ledger_inv seq s"
  using assms unfolding ledger_inv_def by blast

lemma ledger_inv_init: "ledger_inv seq (init_state k n)"
  by (simp add: ledger_inv_def init_state_def num_def)

lemma ledger_inv_visitor_step:
  assumes inv: "ledger_inv seq s" and i: "1 \<le> i" and lt: "i - 1 < length (pcs s)"
    and nu: "\<not> unreached (pcs s ! (i - 1))"
    and it: "seq ! (i - 1) = (name, vtype, d)"
    and st: "visitor_step name vtype i s = Some s'"
  shows "ledger_inv seq s'"
proof -
  from visitor_step_ledger [OF st nu] obtain p' where
    p: "pcs s' = (pcs s)[i - 1 := p']" and
    eff: "(queued p' = queued (pcs s ! (i - 1)) \<and> entry_order s' = entry_order s
          \<and> waiting s' = waiting s)
      \<or> (pcs s ! (i - 1) = Registering \<and> p' = AtEntry
          \<and> entry_order s' = entry_order s @ [(i, name, vtype)]
          \<and> waiting s' = (waiting s)(vtype := waiting s vtype + 1))
      \<or> (pcs s ! (i - 1) = InLoop \<and> p' = Inside
          \<and> entry_order s' = snd (del_by_index i (entry_order s))
          \<and> waiting s' = (waiting s)(vtype := waiting s vtype - 1))"
    by blast
  from inv have dist: "distinct (map fst (entry_order s))"
    and ent: "\<And>e. e \<in> set (entry_order s) \<Longrightarrow>
       1 \<le> fst e \<and> fst e \<le> length (pcs s) \<and> queued (pcs s ! (fst e - 1))
       \<and> snd e = (fst (seq ! (fst e - 1)), fst (snd (seq ! (fst e - 1))))"
    and cov: "\<And>j. j < length (pcs s) \<Longrightarrow> queued (pcs s ! j) \<Longrightarrow>
       Suc j \<in> fst ` set (entry_order s)"
    and w: "\<And>v. waiting s v = num (\<lambda>e. snd (snd e) = v) (entry_order s)"
    unfolding ledger_inv_def by blast+
  have len: "length (pcs s') = length (pcs s)" by (simp add: p)
  have here: "pcs s' ! (i - 1) = p'" using lt by (simp add: p)
  have other: "\<And>j. j \<noteq> i - 1 \<Longrightarrow> pcs s' ! j = pcs s ! j" by (simp add: p)
  have pos_ne: "fst e - 1 \<noteq> i - 1" if "e \<in> set (entry_order s)" "fst e \<noteq> i" for e
    using ent [OF that(1)] that(2) i by arith
  from eff consider
      (frame) "queued p' = queued (pcs s ! (i - 1))" "entry_order s' = entry_order s"
        "waiting s' = waiting s"
    | (reg) "pcs s ! (i - 1) = Registering" "p' = AtEntry"
        "entry_order s' = entry_order s @ [(i, name, vtype)]"
        "waiting s' = (waiting s)(vtype := waiting s vtype + 1)"
    | (admit) "pcs s ! (i - 1) = InLoop" "p' = Inside"
        "entry_order s' = snd (del_by_index i (entry_order s))"
        "waiting s' = (waiting s)(vtype := waiting s vtype - 1)"
    by (elim disjE conjE) blast+
  then show ?thesis
  proof cases
    case frame
    show ?thesis
    proof (rule ledger_invI)
      show "distinct (map fst (entry_order s'))" using dist frame(2) by simp
      show "1 \<le> fst e \<and> fst e \<le> length (pcs s') \<and> queued (pcs s' ! (fst e - 1))
          \<and> snd e = (fst (seq ! (fst e - 1)), fst (snd (seq ! (fst e - 1))))"
        if "e \<in> set (entry_order s')" for e
      proof -
        from that frame(2) have e: "e \<in> set (entry_order s)" by simp
        have "queued (pcs s' ! (fst e - 1))"
        proof (cases "fst e - 1 = i - 1")
          case True
          with ent [OF e] here frame(1) show ?thesis by simp
        next
          case False
          with ent [OF e] other show ?thesis by simp
        qed
        with ent [OF e] len show ?thesis by simp
      qed
      show "Suc j \<in> fst ` set (entry_order s')"
        if "j < length (pcs s')" "queued (pcs s' ! j)" for j
      proof -
        have "queued (pcs s ! j)"
        proof (cases "j = i - 1")
          case True
          with that(2) here frame(1) show ?thesis by simp
        next
          case False
          with that(2) other show ?thesis by simp
        qed
        with that(1) len cov [of j] frame(2) show ?thesis by simp
      qed
      show "waiting s' v = num (\<lambda>e. snd (snd e) = v) (entry_order s')" for v
        using w [of v] frame(2,3) by simp
    qed
  next
    case reg
    have notin: "i \<notin> fst ` set (entry_order s)"
    proof
      assume "i \<in> fst ` set (entry_order s)"
      then obtain e where e: "e \<in> set (entry_order s)" "fst e = i" by auto
      from ent [OF e(1)] e(2) reg(1) show False by simp
    qed
    from lt i have ile: "i \<le> length (pcs s)" by arith
    show ?thesis
    proof (rule ledger_invI)
      show "distinct (map fst (entry_order s'))" using dist notin reg(3) by simp
      show "1 \<le> fst e \<and> fst e \<le> length (pcs s') \<and> queued (pcs s' ! (fst e - 1))
          \<and> snd e = (fst (seq ! (fst e - 1)), fst (snd (seq ! (fst e - 1))))"
        if "e \<in> set (entry_order s')" for e
      proof (cases "e = (i, name, vtype)")
        case True
        with i ile len here reg(2) it show ?thesis by simp
      next
        case False
        with that reg(3) have e: "e \<in> set (entry_order s)" by simp
        with notin have "fst e \<noteq> i" by (metis image_eqI)
        from pos_ne [OF e this] other have "pcs s' ! (fst e - 1) = pcs s ! (fst e - 1)" by simp
        with ent [OF e] len show ?thesis by simp
      qed
      show "Suc j \<in> fst ` set (entry_order s')"
        if "j < length (pcs s')" "queued (pcs s' ! j)" for j
      proof (cases "j = i - 1")
        case True
        with i have "Suc j = i" by simp
        then show ?thesis by (simp add: reg(3))
      next
        case False
        with that other len have "j < length (pcs s)" "queued (pcs s ! j)" by simp_all
        from cov [OF this] show ?thesis by (simp add: reg(3))
      qed
      show "waiting s' v = num (\<lambda>e. snd (snd e) = v) (entry_order s')" for v
        using w [of v] w [of vtype] by (simp add: reg(3,4) num_append)
    qed
  next
    case admit
    from admit(1) have "queued (pcs s ! (i - 1))" by simp
    from cov [OF lt this] i have "i \<in> fst ` set (entry_order s)" by simp
    then obtain e0 where e0: "e0 \<in> set (entry_order s)" "fst e0 = i" by auto
    from ent [OF e0(1)] e0(2) it have k0: "snd (snd e0) = vtype" by simp
    from del_by_index_filter [OF dist] admit(3)
    have q': "entry_order s' = filter (\<lambda>e. fst e \<noteq> i) (entry_order s)" by simp
    show ?thesis
    proof (rule ledger_invI)
      show "distinct (map fst (entry_order s'))"
        unfolding q' using dist by (rule distinct_map_filter)
      show "1 \<le> fst e \<and> fst e \<le> length (pcs s') \<and> queued (pcs s' ! (fst e - 1))
          \<and> snd e = (fst (seq ! (fst e - 1)), fst (snd (seq ! (fst e - 1))))"
        if "e \<in> set (entry_order s')" for e
      proof -
        from that q' have e: "e \<in> set (entry_order s)" "fst e \<noteq> i" by simp_all
        from pos_ne [OF e] other have "pcs s' ! (fst e - 1) = pcs s ! (fst e - 1)" by simp
        with ent [OF e(1)] len show ?thesis by simp
      qed
      show "Suc j \<in> fst ` set (entry_order s')"
        if "j < length (pcs s')" "queued (pcs s' ! j)" for j
      proof -
        from that(2) here admit(2) have ne: "j \<noteq> i - 1" by auto
        with that other len have "j < length (pcs s)" "queued (pcs s ! j)" by simp_all
        from cov [OF this] obtain e where e: "e \<in> set (entry_order s)" "fst e = Suc j" by auto
        from ne i e(2) have "fst e \<noteq> i" by arith
        with e(1) have "e \<in> set (entry_order s')" by (simp add: q')
        with e(2) show ?thesis by (metis image_eqI)
      qed
      show "waiting s' v = num (\<lambda>e. snd (snd e) = v) (entry_order s')" for v
        using w [of v] w [of vtype] num_filter_out [OF dist e0(1), of "\<lambda>e. snd (snd e) = v"]
          e0(2) k0
        by (simp add: q' admit(4))
    qed
  qed
qed

lemma ledger_inv_sched_step:
  assumes li: "lock_inv (length seq) s" and inv: "ledger_inv seq s"
    and st: "sched_step seq i s = Some s'"
  shows "ledger_inv seq s'"
proof (cases "i = 0")
  case True
  with st have "s' = s\<lparr>log := log s @ [FINISHED], finished := True\<rparr>"
    by (simp add: sched_step_def main_join_def split: if_splits)
  with inv show ?thesis by (simp add: ledger_inv_def)
next
  case False
  with st obtain name vtype d where
    i: "1 \<le> i" "i \<le> length seq" and it: "seq ! (i - 1) = (name, vtype, d)"
    and vs: "visitor_step name vtype i s = Some s'"
    by (auto simp: sched_step_def split: if_splits prod.splits)
  from li i have lt: "i - 1 < length (pcs s)" by (simp add: lock_inv_def)
  from li have "num unreached (pcs s) = 0" by (simp add: lock_inv_def)
  from num_zero [OF this lt] have nu: "\<not> unreached (pcs s ! (i - 1))" .
  from ledger_inv_visitor_step [OF inv i(1) lt nu it vs] show ?thesis .
qed

lemma reachable_ledger_inv: "reachable k seq s \<Longrightarrow> ledger_inv seq s"
proof (induction rule: reachable.induct)
  case reachable_init
  show ?case by (rule ledger_inv_init)
next
  case (reachable_step s i s')
  from reachable_lock_inv [OF reachable_step(1)] reachable_step(3,2)
  show ?case by (rule ledger_inv_sched_step)
qed

lemma queued_not_occupying: "queued p \<Longrightarrow> \<not> occupying p"
  by (cases p) simp_all

text \<open>
  C8. At every control point of a run, and so whenever the lock is free:
  \<^verbatim>\<open>waiting[k]\<close> is the number of entries of kind \<open>k\<close> in \<^verbatim>\<open>entry_order\<close>, for each
  kind; no visitor that is admitted and has not yet departed has an entry in the queue;
  and every visitor that has registered and is not yet admitted has its own entry there,
  once. The invariant holds after every step, registration and admission among them.
\<close>

theorem ledger_consistency:
  assumes "reachable k seq s"
  shows "(\<forall>v. waiting s v = num (\<lambda>e. snd (snd e) = v) (entry_order s))
     \<and> (\<forall>j. j < length seq \<and> occupying (pcs s ! j) \<longrightarrow> Suc j \<notin> fst ` set (entry_order s))
     \<and> (\<forall>j. j < length seq \<and> queued (pcs s ! j) \<longrightarrow>
          (Suc j, fst (seq ! j), fst (snd (seq ! j))) \<in> set (entry_order s))
     \<and> distinct (map fst (entry_order s))"
proof -
  from reachable_ledger_inv [OF assms] have inv: "ledger_inv seq s" .
  from reachable_lock_inv [OF assms] have len: "length (pcs s) = length seq"
    by (simp add: lock_inv_def)
  from inv have dist: "distinct (map fst (entry_order s))"
    and ent: "\<And>e. e \<in> set (entry_order s) \<Longrightarrow>
       1 \<le> fst e \<and> fst e \<le> length (pcs s) \<and> queued (pcs s ! (fst e - 1))
       \<and> snd e = (fst (seq ! (fst e - 1)), fst (snd (seq ! (fst e - 1))))"
    and cov: "\<And>j. j < length (pcs s) \<Longrightarrow> queued (pcs s ! j) \<Longrightarrow>
       Suc j \<in> fst ` set (entry_order s)"
    and w: "\<And>v. waiting s v = num (\<lambda>e. snd (snd e) = v) (entry_order s)"
    unfolding ledger_inv_def by blast+
  have absent: "Suc j \<notin> fst ` set (entry_order s)"
    if "j < length seq" "occupying (pcs s ! j)" for j
  proof
    assume "Suc j \<in> fst ` set (entry_order s)"
    then obtain e where e: "e \<in> set (entry_order s)" "fst e = Suc j" by auto
    from ent [OF e(1)] e(2) have "queued (pcs s ! j)" by simp
    from queued_not_occupying [OF this] that(2) show False by simp
  qed
  have present: "(Suc j, fst (seq ! j), fst (snd (seq ! j))) \<in> set (entry_order s)"
    if "j < length seq" "queued (pcs s ! j)" for j
  proof -
    from that len have "j < length (pcs s)" by simp
    from cov [OF this that(2)] obtain e where
      e: "e \<in> set (entry_order s)" "fst e = Suc j" by auto
    from ent [OF e(1)] e(2) have "snd e = (fst (seq ! j), fst (snd (seq ! j)))" by simp
    with e(2) have "e = (Suc j, fst (seq ! j), fst (snd (seq ! j)))" by (cases e) simp
    with e(1) show ?thesis by simp
  qed
  from w absent present dist show ?thesis by blast
qed

theorem ledger_consistency_witness:
  "case run_sched two_students one_inside_one_waiting (init_state 1 (length two_students)) of
     None \<Rightarrow> False
   | Some s \<Rightarrow>
       \<not> lock s \<and> pcs s = [Inside, Waiting] \<and> entry_order s = [(2, lit ''b'', Student)]
       \<and> waiting s Student = 1 \<and> waiting s Admin = 0 \<and> waiting s Online = 0
       \<and> waiting s Student = num (\<lambda>e. snd (snd e) = Student) (entry_order s)
       \<and> Suc 0 \<notin> fst ` set (entry_order s)
       \<and> (Suc 1, fst (two_students ! 1), fst (snd (two_students ! 1))) \<in> set (entry_order s)"
proof -
  have "case run_sched two_students one_inside_one_waiting (init_state 1 (length two_students)) of
     None \<Rightarrow> False
   | Some s \<Rightarrow>
       \<not> lock s \<and> pcs s = [Inside, Waiting] \<and> entry_order s = [(2, lit ''b'', Student)]
       \<and> waiting s Student = 1 \<and> waiting s Admin = 0 \<and> waiting s Online = 0"
    by code_simp
  then obtain s where s:
    "run_sched two_students one_inside_one_waiting (init_state 1 (length two_students)) = Some s"
    "\<not> lock s" "pcs s = [Inside, Waiting]" "entry_order s = [(2, lit ''b'', Student)]"
    "waiting s Student = 1" "waiting s Admin = 0" "waiting s Online = 0"
    by (auto split: option.splits)
  from run_sched_reachable [OF reachable_init s(1)] have r: "reachable 1 two_students s" .
  have l: "length two_students = 2" by (simp add: two_students_def)
  from ledger_consistency [OF r] have
    a: "waiting s Student = num (\<lambda>e. snd (snd e) = Student) (entry_order s)" and
    b: "0 < length two_students \<and> occupying (pcs s ! 0) \<longrightarrow>
          Suc 0 \<notin> fst ` set (entry_order s)" and
    c: "1 < length two_students \<and> queued (pcs s ! 1) \<longrightarrow>
          (Suc 1, fst (two_students ! 1), fst (snd (two_students ! 1))) \<in> set (entry_order s)"
    by blast+
  from b l s(3) have b': "Suc 0 \<notin> fst ` set (entry_order s)" by simp
  from c l s(3) have
    c': "(Suc 1, fst (two_students ! 1), fst (snd (two_students ! 1))) \<in> set (entry_order s)"
    by simp
  from s a b' c' show ?thesis by simp
qed

end
